theory Spec2Isabelle
  imports Complex_Main "HOL-Library.Word" "HOL-Library.Signed_Division" "HOL-Library.Log_Nat"
begin

unbundle bit_operations_syntax

section \<open>JavaScript numbers and their 32-bit operators\<close>

text \<open>
  The codec of \<^verbatim>\<open>TerrainUtil.ts\<close> and the stream of \<^verbatim>\<open>BitStream.ts\<close> compute on
  JavaScript numbers. Integer-valued numbers are modelled as \<^typ>\<open>int\<close>; the bitwise
  operators first convert an operand to a signed 32-bit integer (\<open>ToInt32\<close>) or to an
  unsigned one (\<open>ToUint32\<close>) and take a shift count modulo 32. The two heights of a
  corner are the only fractional numbers of a document: they are double-precision
  numbers, modelled as the \<^typ>\<open>rat\<close> they denote, and every operation on them is
  rounded as IEEE 754 prescribes (see \<open>dbl\<close> below).
\<close>

definition toInt32 :: "int \<Rightarrow> int" where
  "toInt32 v = signed_take_bit 31 v"

definition toUint32 :: "int \<Rightarrow> int" where
  "toUint32 v = take_bit 32 v"

definition shiftCount :: "int \<Rightarrow> nat" where
  "shiftCount n = nat (take_bit 5 n)"

text \<open>\<open>a << n\<close>, \<open>a >> n\<close>, \<open>a >>> n\<close>, \<open>a & b\<close>, \<open>a | b\<close> and \<open>~a\<close>.\<close>

definition js_shl :: "int \<Rightarrow> int \<Rightarrow> int" where
  "js_shl a n = toInt32 (push_bit (shiftCount n) (toInt32 a))"

definition js_sar :: "int \<Rightarrow> int \<Rightarrow> int" where
  "js_sar a n = drop_bit (shiftCount n) (toInt32 a)"

definition js_shr :: "int \<Rightarrow> int \<Rightarrow> int" where
  "js_shr a n = drop_bit (shiftCount n) (toUint32 a)"

definition js_and :: "int \<Rightarrow> int \<Rightarrow> int" where
  "js_and a b = toInt32 a AND toInt32 b"

definition js_or :: "int \<Rightarrow> int \<Rightarrow> int" where
  "js_or a b = toInt32 a OR toInt32 b"

definition js_not :: "int \<Rightarrow> int" where
  "js_not a = NOT (toInt32 a)"

text \<open>\<open>a % b\<close> on integers: the remainder takes the sign of the dividend.\<close>

definition js_rem :: "int \<Rightarrow> int \<Rightarrow> int" where
  "js_rem a b = a smod b"

text \<open>\<open>Math.ceil(a / 8)\<close> for an integer \<open>a\<close>.\<close>

definition ceil8 :: "int \<Rightarrow> int" where
  "ceil8 a = - ((- a) div 8)"

subsection \<open>Double-precision arithmetic\<close>

text \<open>
  The exponent of a non-zero number \<open>x\<close>: the \<open>e\<close> with \<open>2 powi e \<le> \<bar>x\<bar> < 2 powi (e + 1)\<close>,
  read off the bit length of \<open>\<lfloor>\<bar>x\<bar>\<rfloor>\<close>, or of \<open>\<lceil>1 / \<bar>x\<bar>\<rceil> - 1\<close> below 1.
\<close>

definition expo :: "rat \<Rightarrow> int" where
  "expo x = (if 1 \<le> \<bar>x\<bar> then bitlen \<lfloor>\<bar>x\<bar>\<rfloor> - 1 else - bitlen (\<lceil>1 / \<bar>x\<bar>\<rceil> - 1))"

text \<open>Rounding to the nearest integer, a tie going to the even one.\<close>

definition roundHalfEven :: "rat \<Rightarrow> int" where
  "roundHalfEven y =
     (let f = \<lfloor>y\<rfloor>; d = y - of_int f
      in if d < 1 / 2 then f else if 1 / 2 < d then f + 1 else if even f then f else f + 1)"

text \<open>
  The double that an arithmetic operation returns when its exact result is \<open>x\<close>: the
  doubles around \<open>x\<close> are the multiples of \<open>2 powi (e - 52)\<close>, where \<open>e\<close> is the exponent
  of \<open>x\<close>, or \<open>- 1022\<close> for a subnormal; \<open>x\<close> is rounded to the nearest of them, a tie
  going to the even significand. \<open>None\<close> is an overflow: the operation returns
  \<open>Infinity\<close> or \<open>-Infinity\<close>.
\<close>

definition dbl :: "rat \<Rightarrow> rat option" where
  "dbl x =
     (if x = 0 then Some 0
      else let u = 2 powi (max (expo x) (- 1022) - 52);
               y = of_int (roundHalfEven (x / u)) * u
           in if 2 ^ 1024 \<le> \<bar>y\<bar> then None else Some y)"

section \<open>The bit stream\<close>

text \<open>
  \<^verbatim>\<open>class BitStream { buffer: Uint8Array; bitPosition: number; isWriting: boolean }\<close>.
  A \<open>Uint8Array\<close> is a list of bytes; a store into it keeps the low 8 bits. The cursor
  is an \<^typ>\<open>int\<close>, since a peeking read (\<open>changeOffset = false\<close>) subtracts the
  requested width even when the loop stopped early.
\<close>

record BitStream =
  buffer :: "8 word list"
  bitPosition :: int
  isWriting :: bool

text \<open>Every \<open>throw new Error(msg)\<close> of the source is the value \<open>Error msg\<close>.\<close>

datatype error = Error string

text \<open>
  Reads return \<open>error + (result \<times> stream)\<close>. Writes can moreover fail to return (the
  doubling loop of \<open>_ensureCapacity\<close> on an empty buffer), so they return an
  \<open>option\<close> around the sum, \<open>None\<close> meaning that the call does not return.
\<close>

definition bindR :: "error + 'a \<Rightarrow> ('a \<Rightarrow> error + 'b) \<Rightarrow> error + 'b" where
  "bindR m f = (case m of Inl e \<Rightarrow> Inl e | Inr a \<Rightarrow> f a)"

definition bindW :: "(error + 'a) option \<Rightarrow> ('a \<Rightarrow> (error + 'b) option) \<Rightarrow> (error + 'b) option" where
  "bindW m f = (case m of None \<Rightarrow> None | Some (Inl e) \<Rightarrow> Some (Inl e) | Some (Inr a) \<Rightarrow> f a)"

text \<open>\<open>constructor(buffer?)\<close>: read-bound over the given buffer, else write-bound over
  1024 zero bytes. A \<open>Uint8Array\<close> is an object, hence truthy even when empty.\<close>

definition newBitStream :: "8 word list option \<Rightarrow> BitStream" where
  "newBitStream b =
     (case b of
        Some buf \<Rightarrow> \<lparr>buffer = buf, bitPosition = 0, isWriting = False\<rparr>
      | None \<Rightarrow> \<lparr>buffer = replicate 1024 0, bitPosition = 0, isWriting = True\<rparr>)"

text \<open>\<open>buffer[i]\<close> as an operand of a bitwise operator: an index outside the array reads
  \<open>undefined\<close>, which the operator converts to 0.\<close>

definition bufferAt :: "8 word list \<Rightarrow> int \<Rightarrow> int" where
  "bufferAt buf i = (if 0 \<le> i \<and> i < int (length buf) then uint (buf ! nat i) else 0)"

text \<open>\<open>buffer[i] = v\<close>: a store outside the array is ignored.\<close>

definition bufferSet :: "8 word list \<Rightarrow> int \<Rightarrow> int \<Rightarrow> 8 word list" where
  "bufferSet buf i v = (if 0 \<le> i \<and> i < int (length buf) then buf[nat i := word_of_int v] else buf)"

subsection \<open>Growing the write buffer\<close>

text \<open>\<open>while (newLength < requiredBytes) newLength *= 2\<close>: runs forever from 0.\<close>

partial_function (option) growLength :: "int \<Rightarrow> int \<Rightarrow> int option" where
  "growLength newLength requiredBytes =
     (if newLength < requiredBytes then growLength (newLength * 2) requiredBytes
      else Some newLength)"

definition ensureCapacity :: "BitStream \<Rightarrow> nat \<Rightarrow> (error + BitStream) option" where
  "ensureCapacity s bitsToWrite =
     (if \<not> isWriting s then Some (Inl (Error ''Cannot write in read mode.''))
      else
        let requiredBytes = ceil8 (bitPosition s + int bitsToWrite) in
        if requiredBytes > int (length (buffer s)) then
          (case growLength (int (length (buffer s)) * 2) requiredBytes of
             None \<Rightarrow> None
           | Some newLength \<Rightarrow>
               Some (Inr (s\<lparr>buffer := buffer s @ replicate (nat newLength - length (buffer s)) 0\<rparr>)))
        else Some (Inr s))"

subsection \<open>Bits\<close>

text \<open>The loop of \<open>readUBits\<close>; the first argument counts the iterations left. It returns
  the assembled number and the cursor.\<close>

fun readUBits_loop :: "nat \<Rightarrow> 8 word list \<Rightarrow> int \<Rightarrow> int \<Rightarrow> int \<times> int" where
  "readUBits_loop 0 buf acc pos = (acc, pos)"
| "readUBits_loop (Suc n) buf acc pos =
     (let byteIndex = pos div 8;
          bitInByteIndex = js_rem pos 8
      in if byteIndex \<ge> int (length buf) then (acc, pos)
         else
           let currentByte = bufferAt buf byteIndex;
               bit = js_and (js_sar currentByte (7 - bitInByteIndex)) 1
           in readUBits_loop n buf (js_or (js_shl acc 1) bit) (pos + 1))"

definition readUBits :: "BitStream \<Rightarrow> nat \<Rightarrow> bool \<Rightarrow> error + (int \<times> BitStream)" where
  "readUBits s bits changeOffset =
     (if isWriting s then Inl (Error ''Cannot read in write mode.'')
      else
        let (acc, pos) = readUBits_loop bits (buffer s) 0 (bitPosition s);
            pos' = (if \<not> changeOffset then pos - int bits else pos)
        in Inr (js_shr acc 0, s\<lparr>bitPosition := pos'\<rparr>))"

text \<open>The loop of \<open>writeUBits\<close>, \<open>for (let i = bits - 1; i >= 0; i--)\<close>: with \<open>Suc i\<close>
  iterations left the loop variable is \<open>i\<close>.\<close>

fun writeUBits_loop :: "nat \<Rightarrow> int \<Rightarrow> 8 word list \<Rightarrow> int \<Rightarrow> 8 word list \<times> int" where
  "writeUBits_loop 0 v buf pos = (buf, pos)"
| "writeUBits_loop (Suc i) v buf pos =
     (let byteIndex = pos div 8;
          bitInByteIndex = js_rem pos 8;
          bit = js_and (js_sar v (int i)) 1;
          currentByte = bufferAt buf byteIndex;
          buf' = bufferSet buf byteIndex
                   (js_or (js_and currentByte (js_not (js_shl 1 (7 - bitInByteIndex))))
                          (js_shl bit (7 - bitInByteIndex)))
      in writeUBits_loop i v buf' (pos + 1))"

definition writeUBits :: "BitStream \<Rightarrow> int \<Rightarrow> nat \<Rightarrow> (error + BitStream) option" where
  "writeUBits s v bits =
     bindW (ensureCapacity s bits) (\<lambda>s1.
       let (buf, pos) = writeUBits_loop bits v (buffer s1) (bitPosition s1)
       in Some (Inr (s1\<lparr>buffer := buf, bitPosition := pos\<rparr>)))"

subsection \<open>Bytes and words\<close>

definition readUInt8 :: "BitStream \<Rightarrow> bool \<Rightarrow> error + (int \<times> BitStream)" where
  "readUInt8 s changeOffset = readUBits s 8 changeOffset"

definition writeUInt8 :: "BitStream \<Rightarrow> int \<Rightarrow> (error + BitStream) option" where
  "writeUInt8 s v = writeUBits s v 8"

definition readInt8 :: "BitStream \<Rightarrow> bool \<Rightarrow> error + (int \<times> BitStream)" where
  "readInt8 s changeOffset =
     bindR (readUBits s 8 changeOffset) (\<lambda>(unsigned, s1).
       Inr (js_sar (js_shl unsigned 24) 24, s1))"

definition writeInt8 :: "BitStream \<Rightarrow> int \<Rightarrow> (error + BitStream) option" where
  "writeInt8 s v = writeUBits s v 8"

definition readUInt16 :: "BitStream \<Rightarrow> bool \<Rightarrow> error + (int \<times> BitStream)" where
  "readUInt16 s changeOffset =
     bindR (readUBits s 8 True) (\<lambda>(byte0, s1).
     bindR (readUBits s1 8 True) (\<lambda>(byte1, s2).
       Inr (js_or byte0 (js_shl byte1 8),
            if \<not> changeOffset then s2\<lparr>bitPosition := bitPosition s2 - 16\<rparr> else s2)))"

definition writeUInt16 :: "BitStream \<Rightarrow> int \<Rightarrow> (error + BitStream) option" where
  "writeUInt16 s v =
     bindW (writeUBits s (js_and v 255) 8) (\<lambda>s1.
       writeUBits s1 (js_and (js_sar v 8) 255) 8)"

definition readInt16 :: "BitStream \<Rightarrow> bool \<Rightarrow> error + (int \<times> BitStream)" where
  "readInt16 s changeOffset =
     bindR (readUInt16 s changeOffset) (\<lambda>(unsigned, s1).
       Inr (js_sar (js_shl unsigned 16) 16, s1))"

definition writeInt16 :: "BitStream \<Rightarrow> int \<Rightarrow> (error + BitStream) option" where
  "writeInt16 s v = writeUInt16 s v"

definition readUInt32 :: "BitStream \<Rightarrow> bool \<Rightarrow> error + (int \<times> BitStream)" where
  "readUInt32 s changeOffset =
     bindR (readUBits s 8 True) (\<lambda>(b0, s1).
     bindR (readUBits s1 8 True) (\<lambda>(b1, s2).
     bindR (readUBits s2 8 True) (\<lambda>(b2, s3).
     bindR (readUBits s3 8 True) (\<lambda>(b3, s4).
       Inr (js_shr (js_or (js_or (js_or b0 (js_shl b1 8)) (js_shl b2 16)) (js_shl b3 24)) 0,
            if \<not> changeOffset then s4\<lparr>bitPosition := bitPosition s4 - 32\<rparr> else s4)))))"

definition writeUInt32 :: "BitStream \<Rightarrow> int \<Rightarrow> (error + BitStream) option" where
  "writeUInt32 s v =
     bindW (writeUBits s (js_and v 255) 8) (\<lambda>s1.
     bindW (writeUBits s1 (js_and (js_sar v 8) 255) 8) (\<lambda>s2.
     bindW (writeUBits s2 (js_and (js_sar v 16) 255) 8) (\<lambda>s3.
       writeUBits s3 (js_and (js_sar v 24) 255) 8)))"

subsection \<open>Floats\<close>

text \<open>
  A 32-bit float is kept as its IEEE-754 bit pattern, a \<^typ>\<open>32 word\<close>: the
  conversion between a JavaScript number and that pattern, done by \<open>DataView\<close>, is not
  modelled. \<open>getFloat32(0, true)\<close> and \<open>setFloat32(0, value, true)\<close> are the
  little-endian layout of the pattern in the 4-byte array \<open>temp\<close>.
\<close>

definition getFloat32 :: "8 word list \<Rightarrow> 32 word" where
  "getFloat32 temp =
     ucast (temp ! 0) OR push_bit 8 (ucast (temp ! 1)) OR
     push_bit 16 (ucast (temp ! 2)) OR push_bit 24 (ucast (temp ! 3))"

definition setFloat32 :: "32 word \<Rightarrow> 8 word list" where
  "setFloat32 w = [ucast w, ucast (drop_bit 8 w), ucast (drop_bit 16 w), ucast (drop_bit 24 w)]"

text \<open>\<open>for (let i = 0; i < 4; i++) temp[i] = this.readUBits(8)\<close>, with \<open>4 - n\<close> the
  loop variable.\<close>

fun readFloat32_loop :: "nat \<Rightarrow> BitStream \<Rightarrow> 8 word list \<Rightarrow> error + (8 word list \<times> BitStream)" where
  "readFloat32_loop 0 s temp = Inr (temp, s)"
| "readFloat32_loop (Suc n) s temp =
     bindR (readUBits s 8 True) (\<lambda>(v, s1).
       readFloat32_loop n s1 (temp[3 - n := word_of_int v]))"

definition readFloat32 :: "BitStream \<Rightarrow> bool \<Rightarrow> error + (32 word \<times> BitStream)" where
  "readFloat32 s changeOffset =
     bindR (readFloat32_loop 4 s (replicate 4 0)) (\<lambda>(temp, s1).
       Inr (getFloat32 temp,
            if \<not> changeOffset then s1\<lparr>bitPosition := bitPosition s1 - 32\<rparr> else s1))"

fun writeFloat32_loop :: "nat \<Rightarrow> BitStream \<Rightarrow> 8 word list \<Rightarrow> (error + BitStream) option" where
  "writeFloat32_loop 0 s temp = Some (Inr s)"
| "writeFloat32_loop (Suc n) s temp =
     bindW (writeUBits s (uint (temp ! (3 - n))) 8) (\<lambda>s1. writeFloat32_loop n s1 temp)"

definition writeFloat32 :: "BitStream \<Rightarrow> 32 word \<Rightarrow> (error + BitStream) option" where
  "writeFloat32 s w = writeFloat32_loop 4 s (setFloat32 w)"

subsection \<open>Characters and tags\<close>

text \<open>
  A string is a list of characters with codes 0..255; code units above 255 are outside
  the model. \<open>String.fromCharCode\<close> of a byte is that character.
\<close>

definition readString8 :: "BitStream \<Rightarrow> bool \<Rightarrow> error + (string \<times> BitStream)" where
  "readString8 s changeOffset =
     bindR (readUBits s 8 True) (\<lambda>(charCode, s1).
       Inr ([char_of charCode],
            if \<not> changeOffset then s1\<lparr>bitPosition := bitPosition s1 - 8\<rparr> else s1))"

text \<open>\<open>str.charCodeAt(0) || 0\<close>: the empty string gives \<open>NaN\<close>, hence 0.\<close>

definition charCodeAt0 :: "string \<Rightarrow> int" where
  "charCodeAt0 str = (case str of [] \<Rightarrow> 0 | c # _ \<Rightarrow> of_char c)"

definition writeString8 :: "BitStream \<Rightarrow> string \<Rightarrow> (error + BitStream) option" where
  "writeString8 s str = writeUBits s (charCodeAt0 str) 8"

fun readString32_loop :: "nat \<Rightarrow> BitStream \<Rightarrow> string \<Rightarrow> error + (string \<times> BitStream)" where
  "readString32_loop 0 s result = Inr (result, s)"
| "readString32_loop (Suc n) s result =
     bindR (readString8 s True) (\<lambda>(c, s1). readString32_loop n s1 (result @ c))"

definition readString32 :: "BitStream \<Rightarrow> bool \<Rightarrow> error + (string \<times> BitStream)" where
  "readString32 s changeOffset =
     bindR (readString32_loop 4 s []) (\<lambda>(result, s1).
       Inr (result,
            if \<not> changeOffset then s1\<lparr>bitPosition := bitPosition s1 - 32\<rparr> else s1))"

text \<open>\<open>str[i] || '\0'\<close>: a missing character is replaced by the NUL character.\<close>

definition charAtOrNul :: "string \<Rightarrow> nat \<Rightarrow> string" where
  "charAtOrNul str i = (if i < length str then [str ! i] else [char_of (0::nat)])"

fun writeString32_loop :: "nat \<Rightarrow> BitStream \<Rightarrow> string \<Rightarrow> (error + BitStream) option" where
  "writeString32_loop 0 s str = Some (Inr s)"
| "writeString32_loop (Suc n) s str =
     bindW (writeString8 s (charAtOrNul str (3 - n))) (\<lambda>s1. writeString32_loop n s1 str)"

definition writeString32 :: "BitStream \<Rightarrow> string \<Rightarrow> (error + BitStream) option" where
  "writeString32 s str = writeString32_loop 4 s str"

text \<open>
  \<open>readString32Array\<close> pushes \<open>length\<close> strings on an array. The array is a list of any
  length: an engine ends the loop with a \<open>RangeError\<close> once the array cannot grow,
  at a length that depends on the engine and its memory and is not modelled.
\<close>

fun readString32Array_loop :: "nat \<Rightarrow> BitStream \<Rightarrow> string list \<Rightarrow> error + (string list \<times> BitStream)" where
  "readString32Array_loop 0 s arr = Inr (arr, s)"
| "readString32Array_loop (Suc n) s arr =
     bindR (readString32 s True) (\<lambda>(str, s1). readString32Array_loop n s1 (arr @ [str]))"

text \<open>\<open>for (let i = 0; i < length; i++)\<close> runs \<open>nat length\<close> times.\<close>

definition readString32Array :: "BitStream \<Rightarrow> int \<Rightarrow> error + (string list \<times> BitStream)" where
  "readString32Array s len = readString32Array_loop (nat len) s []"

fun writeString32Array :: "BitStream \<Rightarrow> string list \<Rightarrow> (error + BitStream) option" where
  "writeString32Array s [] = Some (Inr s)"
| "writeString32Array s (str # arr) =
     bindW (writeString32 s str) (\<lambda>s1. writeString32Array s1 arr)"

subsection \<open>The finished buffer\<close>

text \<open>\<open>xs.slice(0, e)\<close>: a negative end counts from the end of the array.\<close>

definition slice0 :: "'a list \<Rightarrow> int \<Rightarrow> 'a list" where
  "slice0 xs e = (if e < 0 then take (nat (int (length xs) + e)) xs else take (nat e) xs)"

definition getBuffer :: "BitStream \<Rightarrow> error + 8 word list" where
  "getBuffer s =
     (if \<not> isWriting s then Inl (Error ''Cannot get buffer in read mode.'')
      else Inr (slice0 (buffer s) (ceil8 (bitPosition s))))"

section \<open>The terrain codec\<close>

text \<open>
  \<^verbatim>\<open>interface W3E { header: {...}; corners: Corner[] }\<close>. The origin fields \<open>x\<close> and
  \<open>y\<close> of the header are named \<open>x_f32\<close> and \<open>y_f32\<close>: they hold 32-bit float
  patterns.
\<close>

record Header =
  fileId :: string
  version :: int
  baseTileset :: string
  hasCustomTileset :: int
  tilePaletteCount :: int
  tilePalette :: "string list"
  cliffTilePaletteCount :: int
  cliffTilePalette :: "string list"
  width :: int
  height :: int
  x_f32 :: "32 word"
  y_f32 :: "32 word"

record Corner =
  index :: int
  rowid :: int
  colid :: int
  groundHeight :: rat
  waterHeight :: rat
  mapEdge :: int
  ramp :: int
  blight :: int
  water :: int
  boundary :: int
  groundTexture :: int
  groundVariation :: int
  cliffVariation :: int
  cliffTexture :: int
  layerHeight :: int

record W3E =
  header :: Header
  corners :: "Corner list"

subsection \<open>Decoding\<close>

text \<open>The body of the corner loop of \<open>decodeW3e\<close> for loop variable \<open>i\<close>.\<close>

definition readCorner :: "int \<Rightarrow> int \<Rightarrow> BitStream \<Rightarrow> error + (Corner \<times> BitStream)" where
  "readCorner w i s =
     (let row = i div w;
          col = js_rem i w
      in
      bindR (readUInt16 s True) (\<lambda>(gHeight, s1).
      bindR (readUInt16 s1 True) (\<lambda>(wHeightRaw, s2).
      bindR (readUInt8 s2 True) (\<lambda>(byte4, s3).
      bindR (readUInt8 s3 True) (\<lambda>(byte5, s4).
      bindR (readUInt8 s4 True) (\<lambda>(byte6, s5).
        Inr (\<lparr>index = i,
              rowid = row,
              colid = col,
              groundHeight = (of_int gHeight - 8192) / 4,
              waterHeight = (of_int (js_and wHeightRaw 16383) - 8192) / 4,
              mapEdge = js_shr (js_and wHeightRaw 49152) 14,
              ramp = js_sar (js_and byte4 16) 4,
              blight = js_sar (js_and byte4 64) 6,
              water = js_sar (js_and byte4 32) 5,
              boundary = js_sar (js_and byte4 128) 7,
              groundTexture = js_and byte4 15,
              groundVariation = js_and byte5 31,
              cliffVariation = js_sar (js_and byte5 224) 5,
              cliffTexture = js_and byte6 15,
              layerHeight = js_sar (js_and byte6 240) 4\<rparr>, s5)))))))"

text \<open>\<open>for (let i = 0; i < totalCorners; i++)\<close>: the first argument counts the
  iterations left, \<open>cs\<close> is \<open>w3e.corners\<close> so far. As for the palettes, \<open>cs\<close> is a list
  of any length, where an engine ends the loop with a \<open>RangeError\<close> once the array
  cannot grow: a result \<open>Inr\<close> of \<open>decodeW3e\<close> is the document that the code returns
  if it returns one. The number of iterations \<open>w * h\<close> is the exact product; the double
  product differs from it only above \<open>2 ^ 53\<close>, more corners than an array holds.\<close>

fun readCorners :: "nat \<Rightarrow> int \<Rightarrow> int \<Rightarrow> Corner list \<Rightarrow> BitStream \<Rightarrow> error + (Corner list \<times> BitStream)" where
  "readCorners 0 w i cs s = Inr (cs, s)"
| "readCorners (Suc n) w i cs s =
     bindR (readCorner w i s) (\<lambda>(c, s1). readCorners n w (i + 1) (cs @ [c]) s1)"

definition decodeW3e :: "8 word list \<Rightarrow> error + W3E" where
  "decodeW3e buf =
     (let bitstream = newBitStream (Some buf) in
      bindR (readString32 bitstream True) (\<lambda>(fid, s1).
      bindR (readUInt32 s1 True) (\<lambda>(ver, s2).
      bindR (readString8 s2 True) (\<lambda>(tileset, s3).
      bindR (readUInt32 s3 True) (\<lambda>(custom, s4).
      bindR (readUInt32 s4 True) (\<lambda>(tpc, s5).
      bindR (readString32Array s5 tpc) (\<lambda>(tp, s6).
      bindR (readUInt32 s6 True) (\<lambda>(cpc, s7).
      bindR (readString32Array s7 cpc) (\<lambda>(cp, s8).
      bindR (readUInt32 s8 True) (\<lambda>(w, s9).
      bindR (readUInt32 s9 True) (\<lambda>(h, s10).
      bindR (readFloat32 s10 True) (\<lambda>(px, s11).
      bindR (readFloat32 s11 True) (\<lambda>(py, s12).
        let hdr = \<lparr>fileId = fid, version = ver, baseTileset = tileset,
                   hasCustomTileset = custom,
                   tilePaletteCount = tpc, tilePalette = tp,
                   cliffTilePaletteCount = cpc, cliffTilePalette = cp,
                   width = w, height = h, x_f32 = px, y_f32 = py\<rparr>;
            totalCorners = w * h
        in
        bindR (readCorners (nat totalCorners) w 0 [] s12) (\<lambda>(cs, s13).
          Inr \<lparr>header = hdr, corners = cs\<rparr>))))))))))))))"

subsection \<open>Encoding\<close>

text \<open>
  \<open>Math.round(h * 4 + 8192)\<close> for a height \<open>h\<close>: the product and the sum are each rounded
  to a double, and \<open>Math.round\<close> takes that double to an integer, a tie going towards
  plus infinity, as \<^const>\<open>round\<close> does. After an overflow \<open>Math.round\<close> returns the
  infinity it is given, which the bitwise operators applied to the result (\<open>& 0x3FFF\<close>
  here, \<open>& 0xFF\<close> and \<open>>> 8\<close> in \<open>writeUInt16\<close>) convert to 0.
\<close>

definition heightRaw :: "rat \<Rightarrow> int" where
  "heightRaw h =
     (case dbl (h * 4) of
        None \<Rightarrow> 0
      | Some p \<Rightarrow> (case dbl (p + 8192) of None \<Rightarrow> 0 | Some y \<Rightarrow> round y))"

text \<open>The body of the corner loop of \<open>encodeW3e\<close>.\<close>

definition writeCorner :: "BitStream \<Rightarrow> Corner \<Rightarrow> (error + BitStream) option" where
  "writeCorner s corner =
     bindW (writeUInt16 s (heightRaw (groundHeight corner))) (\<lambda>s1.
       let wHeightRaw = js_or (js_and (heightRaw (waterHeight corner)) 16383)
                              (js_shl (mapEdge corner) 14)
       in
       bindW (writeUInt16 s1 wHeightRaw) (\<lambda>s2.
         let byte4 = js_or (js_or (js_or (js_or (js_and (groundTexture corner) 15)
                                                 (js_shl (ramp corner) 4))
                                          (js_shl (water corner) 5))
                                   (js_shl (blight corner) 6))
                            (js_shl (boundary corner) 7)
         in
         bindW (writeUInt8 s2 byte4) (\<lambda>s3.
           let byte5 = js_or (js_and (groundVariation corner) 31)
                             (js_shl (cliffVariation corner) 5)
           in
           bindW (writeUInt8 s3 byte5) (\<lambda>s4.
             let byte6 = js_or (js_and (cliffTexture corner) 15)
                               (js_shl (layerHeight corner) 4)
             in writeUInt8 s4 byte6))))"

fun writeCorners :: "BitStream \<Rightarrow> Corner list \<Rightarrow> (error + BitStream) option" where
  "writeCorners s [] = Some (Inr s)"
| "writeCorners s (corner # cs) = bindW (writeCorner s corner) (\<lambda>s1. writeCorners s1 cs)"

definition encodeW3e :: "W3E \<Rightarrow> (error + 8 word list) option" where
  "encodeW3e w3e =
     (let bitstream = newBitStream None;
          hdr = header w3e
      in
      bindW (writeString32 bitstream (fileId hdr)) (\<lambda>s1.
      bindW (writeUInt32 s1 (version hdr)) (\<lambda>s2.
      bindW (writeString8 s2 (baseTileset hdr)) (\<lambda>s3.
      bindW (writeUInt32 s3 (hasCustomTileset hdr)) (\<lambda>s4.
      bindW (writeUInt32 s4 (tilePaletteCount hdr)) (\<lambda>s5.
      bindW (writeString32Array s5 (tilePalette hdr)) (\<lambda>s6.
      bindW (writeUInt32 s6 (cliffTilePaletteCount hdr)) (\<lambda>s7.
      bindW (writeString32Array s7 (cliffTilePalette hdr)) (\<lambda>s8.
      bindW (writeUInt32 s8 (width hdr)) (\<lambda>s9.
      bindW (writeUInt32 s9 (height hdr)) (\<lambda>s10.
      bindW (writeFloat32 s10 (x_f32 hdr)) (\<lambda>s11.
      bindW (writeFloat32 s11 (y_f32 hdr)) (\<lambda>s12.
      bindW (writeCorners s12 (corners w3e)) (\<lambda>s13.
        Some (getBuffer s13)))))))))))))))"

section \<open>Byte-level view of the codec\<close>

text \<open>
  The definitions of this section are not part of the program. They describe what the
  stream operations do on whole bytes: the bytes an encoder appends, the values a
  decoder reads from the bytes that remain, and the documents on which the two are
  inverse to each other. The lemmas of the next section connect them to the program.
\<close>

text \<open>A write-bound stream as the encoder leaves it between two writes: the cursor is on a
  byte boundary inside or at the end of a non-empty buffer. \<open>written\<close> is the part of
  the buffer before the cursor, which \<open>getBuffer\<close> returns.\<close>

definition winv :: "BitStream \<Rightarrow> bool" where
  "winv s \<longleftrightarrow> isWriting s \<and> 0 < length (buffer s) \<and> 0 \<le> bitPosition s \<and>
     bitPosition s mod 8 = 0 \<and> bitPosition s div 8 \<le> int (length (buffer s))"

definition written :: "BitStream \<Rightarrow> 8 word list" where
  "written s = take (nat (bitPosition s div 8)) (buffer s)"

text \<open>The write \<open>m\<close> returns normally on every such stream and appends the bytes \<open>bs\<close>.\<close>

definition emits :: "(BitStream \<Rightarrow> (error + BitStream) option) \<Rightarrow> 8 word list \<Rightarrow> bool" where
  "emits m bs \<longleftrightarrow>
     (\<forall>s. winv s \<longrightarrow> (\<exists>s'. m s = Some (Inr s') \<and> winv s' \<and> written s' = written s @ bs))"

text \<open>The bytes appended by \<open>writeUInt16\<close>, \<open>writeUInt32\<close>, \<open>writeString8\<close>,
  \<open>writeString32\<close> and \<open>writeString32Array\<close>.\<close>

definition u16_bytes :: "int \<Rightarrow> 8 word list" where
  "u16_bytes v = [word_of_int v, word_of_int (drop_bit 8 v)]"

definition u32_bytes :: "int \<Rightarrow> 8 word list" where
  "u32_bytes v = [word_of_int v, word_of_int (drop_bit 8 v),
                  word_of_int (drop_bit 16 v), word_of_int (drop_bit 24 v)]"

definition str8_bytes :: "string \<Rightarrow> 8 word list" where
  "str8_bytes str = [word_of_int (charCodeAt0 str)]"

definition str32_bytes :: "string \<Rightarrow> 8 word list" where
  "str32_bytes str = str8_bytes (charAtOrNul str 0) @ str8_bytes (charAtOrNul str 1) @
                     str8_bytes (charAtOrNul str 2) @ str8_bytes (charAtOrNul str 3)"

definition tags_bytes :: "string list \<Rightarrow> 8 word list" where
  "tags_bytes arr = concat (map str32_bytes arr)"

text \<open>A read-bound stream as the decoder leaves it between two reads: the cursor is on a
  byte boundary inside or at the end of the buffer. \<open>rest\<close> is the part of the buffer
  from the cursor on.\<close>

definition rinv :: "BitStream \<Rightarrow> bool" where
  "rinv s \<longleftrightarrow> \<not> isWriting s \<and> 0 \<le> bitPosition s \<and> bitPosition s mod 8 = 0 \<and>
     bitPosition s div 8 \<le> int (length (buffer s))"

definition rest :: "BitStream \<Rightarrow> 8 word list" where
  "rest s = drop (nat (bitPosition s div 8)) (buffer s)"

text \<open>The read \<open>m\<close> returns normally on every such stream; its result and the bytes left
  over are those that \<open>f\<close> computes from the bytes at the cursor.\<close>

definition yields :: "(BitStream \<Rightarrow> error + ('a \<times> BitStream)) \<Rightarrow> (8 word list \<Rightarrow> 'a \<times> 8 word list) \<Rightarrow> bool" where
  "yields m f \<longleftrightarrow>
     (\<forall>s. rinv s \<longrightarrow> (\<exists>s'. m s = Inr (fst (f (rest s)), s') \<and> rinv s' \<and> rest s' = snd (f (rest s))))"

text \<open>The next \<open>n\<close> bytes as eight-bit reads see them, with 0 for each byte past the end;
  \<open>cur\<close> is the first of them.\<close>

definition pad :: "nat \<Rightarrow> 8 word list \<Rightarrow> 8 word list" where
  "pad n bs = take n bs @ replicate (n - length bs) 0"

definition cur :: "8 word list \<Rightarrow> 8 word" where
  "cur bs = (case bs of [] \<Rightarrow> 0 | b # _ \<Rightarrow> b)"

text \<open>The number held by a little-endian byte sequence.\<close>

fun le_int :: "8 word list \<Rightarrow> int" where
  "le_int [] = 0"
| "le_int (b # bs) = uint b OR push_bit 8 (le_int bs)"

text \<open>What \<open>readUInt8\<close>, \<open>readUInt16\<close> and \<open>readUInt32\<close> return, as functions of the
  remaining bytes.\<close>

definition p_u8 :: "8 word list \<Rightarrow> int \<times> 8 word list" where
  "p_u8 bs = (uint (cur bs), tl bs)"

definition p_u16 :: "8 word list \<Rightarrow> int \<times> 8 word list" where
  "p_u16 bs = (le_int (pad 2 bs), drop 2 bs)"

definition p_u32 :: "8 word list \<Rightarrow> int \<times> 8 word list" where
  "p_u32 bs = (le_int (pad 4 bs), drop 4 bs)"

text \<open>The same for a computation that ends the decoding and returns only its result.\<close>

definition yieldsV :: "(BitStream \<Rightarrow> error + 'a) \<Rightarrow> (8 word list \<Rightarrow> 'a) \<Rightarrow> bool" where
  "yieldsV m f \<longleftrightarrow> (\<forall>s. rinv s \<longrightarrow> m s = Inr (f (rest s)))"

text \<open>What \<open>readFloat32\<close>, \<open>readString8\<close>, \<open>readString32\<close> and
  \<open>readString32Array\<close> return.\<close>

definition p_f32 :: "8 word list \<Rightarrow> 32 word \<times> 8 word list" where
  "p_f32 bs = (getFloat32 (pad 4 bs), drop 4 bs)"

definition p_str8 :: "8 word list \<Rightarrow> string \<times> 8 word list" where
  "p_str8 bs = ([char_of (uint (cur bs))], tl bs)"

definition p_str32 :: "8 word list \<Rightarrow> string \<times> 8 word list" where
  "p_str32 bs = (map (\<lambda>b. char_of (uint b)) (pad 4 bs), drop 4 bs)"

fun p_tags :: "nat \<Rightarrow> 8 word list \<Rightarrow> string list \<times> 8 word list" where
  "p_tags 0 bs = ([], bs)"
| "p_tags (Suc n) bs =
     (case p_str32 bs of (t, r) \<Rightarrow> case p_tags n r of (ts, r') \<Rightarrow> (t # ts, r'))"

text \<open>The corner that the loop body of \<open>decodeW3e\<close> builds from the five numbers it
  has read, and the loop itself on the remaining bytes. A corner takes 7 bytes.\<close>

definition mkCorner :: "int \<Rightarrow> int \<Rightarrow> int \<Rightarrow> int \<Rightarrow> int \<Rightarrow> int \<Rightarrow> int \<Rightarrow> Corner" where
  "mkCorner w i gHeight wHeightRaw byte4 byte5 byte6 =
     \<lparr>index = i,
      rowid = i div w,
      colid = js_rem i w,
      groundHeight = (of_int gHeight - 8192) / 4,
      waterHeight = (of_int (js_and wHeightRaw 16383) - 8192) / 4,
      mapEdge = js_shr (js_and wHeightRaw 49152) 14,
      ramp = js_sar (js_and byte4 16) 4,
      blight = js_sar (js_and byte4 64) 6,
      water = js_sar (js_and byte4 32) 5,
      boundary = js_sar (js_and byte4 128) 7,
      groundTexture = js_and byte4 15,
      groundVariation = js_and byte5 31,
      cliffVariation = js_sar (js_and byte5 224) 5,
      cliffTexture = js_and byte6 15,
      layerHeight = js_sar (js_and byte6 240) 4\<rparr>"

definition p_corner :: "int \<Rightarrow> int \<Rightarrow> 8 word list \<Rightarrow> Corner \<times> 8 word list" where
  "p_corner w i bs =
     (mkCorner w i (le_int (pad 2 bs)) (le_int (pad 2 (drop 2 bs)))
        (uint (cur (drop 4 bs))) (uint (cur (drop 5 bs))) (uint (cur (drop 6 bs))),
      drop 7 bs)"

fun p_corners :: "nat \<Rightarrow> int \<Rightarrow> int \<Rightarrow> 8 word list \<Rightarrow> Corner list \<times> 8 word list" where
  "p_corners 0 w i bs = ([], bs)"
| "p_corners (Suc n) w i bs =
     (case p_corner w i bs of (c, r) \<Rightarrow> case p_corners n w (i + 1) r of (cs, r') \<Rightarrow> (c # cs, r'))"

text \<open>The document that \<open>decodeW3e\<close> returns, as a function of the buffer.\<close>

definition parseW3E :: "8 word list \<Rightarrow> W3E" where
  "parseW3E bs0 =
     (case p_str32 bs0 of (fid, bs1) \<Rightarrow>
      case p_u32 bs1 of (ver, bs2) \<Rightarrow>
      case p_str8 bs2 of (tileset, bs3) \<Rightarrow>
      case p_u32 bs3 of (custom, bs4) \<Rightarrow>
      case p_u32 bs4 of (tpc, bs5) \<Rightarrow>
      case p_tags (nat tpc) bs5 of (tp, bs6) \<Rightarrow>
      case p_u32 bs6 of (cpc, bs7) \<Rightarrow>
      case p_tags (nat cpc) bs7 of (cp, bs8) \<Rightarrow>
      case p_u32 bs8 of (w, bs9) \<Rightarrow>
      case p_u32 bs9 of (h, bs10) \<Rightarrow>
      case p_f32 bs10 of (px, bs11) \<Rightarrow>
      case p_f32 bs11 of (py, bs12) \<Rightarrow>
      case p_corners (nat (w * h)) w 0 bs12 of (cs, bs13) \<Rightarrow>
        \<lparr>header = \<lparr>fileId = fid, version = ver, baseTileset = tileset,
                    hasCustomTileset = custom,
                    tilePaletteCount = tpc, tilePalette = tp,
                    cliffTilePaletteCount = cpc, cliffTilePalette = cp,
                    width = w, height = h, x_f32 = px, y_f32 = py\<rparr>,
         corners = cs\<rparr>)"

text \<open>The 16-bit word and the three bytes that the loop body of \<open>encodeW3e\<close> computes
  for a corner, and the bytes it appends.\<close>

definition waterWord :: "Corner \<Rightarrow> int" where
  "waterWord corner =
     js_or (js_and (heightRaw (waterHeight corner)) 16383) (js_shl (mapEdge corner) 14)"

definition flagsByte :: "Corner \<Rightarrow> int" where
  "flagsByte corner =
     js_or (js_or (js_or (js_or (js_and (groundTexture corner) 15)
                                 (js_shl (ramp corner) 4))
                          (js_shl (water corner) 5))
                   (js_shl (blight corner) 6))
            (js_shl (boundary corner) 7)"

definition variationByte :: "Corner \<Rightarrow> int" where
  "variationByte corner =
     js_or (js_and (groundVariation corner) 31) (js_shl (cliffVariation corner) 5)"

definition cliffByte :: "Corner \<Rightarrow> int" where
  "cliffByte corner =
     js_or (js_and (cliffTexture corner) 15) (js_shl (layerHeight corner) 4)"

definition corner_bytes :: "Corner \<Rightarrow> 8 word list" where
  "corner_bytes corner =
     u16_bytes (heightRaw (groundHeight corner)) @ u16_bytes (waterWord corner) @
     [word_of_int (flagsByte corner), word_of_int (variationByte corner),
      word_of_int (cliffByte corner)]"

text \<open>The bytes that \<open>encodeW3e\<close> returns.\<close>

definition header_bytes :: "Header \<Rightarrow> 8 word list" where
  "header_bytes hdr =
     str32_bytes (fileId hdr) @ u32_bytes (version hdr) @ str8_bytes (baseTileset hdr) @
     u32_bytes (hasCustomTileset hdr) @
     u32_bytes (tilePaletteCount hdr) @ tags_bytes (tilePalette hdr) @
     u32_bytes (cliffTilePaletteCount hdr) @ tags_bytes (cliffTilePalette hdr) @
     u32_bytes (width hdr) @ u32_bytes (height hdr) @
     setFloat32 (x_f32 hdr) @ setFloat32 (y_f32 hdr)"

definition bytesW3E :: "W3E \<Rightarrow> 8 word list" where
  "bytesW3E w3e = header_bytes (header w3e) @ concat (map corner_bytes (corners w3e))"

text \<open>The corner obtained at position \<open>i\<close> of a grid of width \<open>w\<close> by decoding the 7
  bytes of a corner \<open>c\<close>, for arbitrary field values of \<open>c\<close>: the positional fields
  come from \<open>i\<close>, the raw heights are cut to 16 and 14 bits, each bitfield is cut to
  its width, and the flags \<open>water\<close>, \<open>blight\<close> and \<open>boundary\<close> also receive the
  higher bits of the flags packed below them.\<close>

definition repack :: "int \<Rightarrow> int \<Rightarrow> Corner \<Rightarrow> Corner" where
  "repack w i c =
     \<lparr>index = i, rowid = i div w, colid = js_rem i w,
      groundHeight = (of_int (take_bit 16 (heightRaw (groundHeight c))) - 8192) / 4,
      waterHeight = (of_int (take_bit 14 (heightRaw (waterHeight c))) - 8192) / 4,
      mapEdge = take_bit 2 (mapEdge c),
      ramp = of_bool (bit (ramp c) 0),
      blight = of_bool (bit (blight c) 0 \<or> bit (water c) 1 \<or> bit (ramp c) 2),
      water = of_bool (bit (water c) 0 \<or> bit (ramp c) 1),
      boundary = of_bool (bit (boundary c) 0 \<or> bit (blight c) 1 \<or> bit (water c) 2 \<or>
                          bit (ramp c) 3),
      groundTexture = take_bit 4 (groundTexture c),
      groundVariation = take_bit 5 (groundVariation c),
      cliffVariation = take_bit 3 (cliffVariation c),
      cliffTexture = take_bit 4 (cliffTexture c),
      layerHeight = take_bit 4 (layerHeight c)\<rparr>"

fun repackAll :: "int \<Rightarrow> int \<Rightarrow> Corner list \<Rightarrow> Corner list" where
  "repackAll w i [] = []"
| "repackAll w i (c # cs) = repack w i c # repackAll w (i + 1) cs"

text \<open>A header that the codec reproduces: 4-character tags, a 1-character base tileset,
  unsigned 32-bit scalars, each palette count equal to the length of its palette.\<close>

definition u32 :: "int \<Rightarrow> bool" where
  "u32 v \<longleftrightarrow> 0 \<le> v \<and> v < 2 ^ 32"

definition wf_header :: "Header \<Rightarrow> bool" where
  "wf_header hdr \<longleftrightarrow>
     length (fileId hdr) = 4 \<and> u32 (version hdr) \<and> length (baseTileset hdr) = 1 \<and>
     u32 (hasCustomTileset hdr) \<and>
     tilePaletteCount hdr = int (length (tilePalette hdr)) \<and> u32 (tilePaletteCount hdr) \<and>
     list_all (\<lambda>t. length t = 4) (tilePalette hdr) \<and>
     cliffTilePaletteCount hdr = int (length (cliffTilePalette hdr)) \<and>
     u32 (cliffTilePaletteCount hdr) \<and>
     list_all (\<lambda>t. length t = 4) (cliffTilePalette hdr) \<and>
     u32 (width hdr) \<and> u32 (height hdr)"

text \<open>\<open>decodeW3e (encodeW3e w3e)\<close>.\<close>

definition roundTrip :: "W3E \<Rightarrow> (error + W3E) option" where
  "roundTrip w3e = bindW (encodeW3e w3e) (\<lambda>buf. Some (decodeW3e buf))"

text \<open>The corners of a list carry the positions \<open>i\<close>, \<open>i + 1\<close>, ... of a grid of width
  \<open>w\<close> in their fields \<open>index\<close>, \<open>rowid\<close> and \<open>colid\<close>.\<close>

fun positioned :: "int \<Rightarrow> int \<Rightarrow> Corner list \<Rightarrow> bool" where
  "positioned w i [] = True"
| "positioned w i (c # cs) =
     (index c = i \<and> rowid c = i div w \<and> colid c = i mod w \<and> positioned w (i + 1) cs)"

text \<open>A height whose raw value \<open>h * 4 + 8192\<close> lies in \<open>0 .. 2 ^ bits - 1\<close>; a height
  that is a multiple of 0.25; an integer that fits a bitfield of the given width.\<close>

definition heightInRange :: "nat \<Rightarrow> rat \<Rightarrow> bool" where
  "heightInRange bits h \<longleftrightarrow> 0 \<le> h * 4 + 8192 \<and> h * 4 + 8192 \<le> 2 ^ bits - 1"

definition quarterMultiple :: "rat \<Rightarrow> bool" where
  "quarterMultiple h \<longleftrightarrow> of_int \<lfloor>h * 4\<rfloor> = h * 4"

definition bitfield :: "nat \<Rightarrow> int \<Rightarrow> bool" where
  "bitfield bits v \<longleftrightarrow> 0 \<le> v \<and> v < 2 ^ bits"

text \<open>Every bitfield of a corner lies within its declared width; a corner that the codec
  reproduces has moreover heights that are multiples of 0.25 in the raw range.\<close>

definition fieldsInRange :: "Corner \<Rightarrow> bool" where
  "fieldsInRange c \<longleftrightarrow>
     bitfield 2 (mapEdge c) \<and> bitfield 1 (ramp c) \<and> bitfield 1 (water c) \<and>
     bitfield 1 (blight c) \<and> bitfield 1 (boundary c) \<and> bitfield 4 (groundTexture c) \<and>
     bitfield 5 (groundVariation c) \<and> bitfield 3 (cliffVariation c) \<and>
     bitfield 4 (cliffTexture c) \<and> bitfield 4 (layerHeight c)"

definition wf_corner :: "Corner \<Rightarrow> bool" where
  "wf_corner c \<longleftrightarrow>
     quarterMultiple (groundHeight c) \<and> heightInRange 16 (groundHeight c) \<and>
     quarterMultiple (waterHeight c) \<and> heightInRange 14 (waterHeight c) \<and> fieldsInRange c"

text \<open>A document with a well-formed header and \<open>width * height\<close> corners; a well-formed
  document has moreover positioned, well-formed corners.\<close>

definition framed :: "W3E \<Rightarrow> bool" where
  "framed w3e \<longleftrightarrow>
     wf_header (header w3e) \<and>
     length (corners w3e) = nat (width (header w3e) * height (header w3e))"

definition wf_W3E :: "W3E \<Rightarrow> bool" where
  "wf_W3E w3e \<longleftrightarrow>
     framed w3e \<and> positioned (width (header w3e)) 0 (corners w3e) \<and>
     list_all wf_corner (corners w3e)"

text \<open>The document of the 2\<times>1 scenario of the specification; \<open>x = -128\<close> is the float
  pattern \<open>0xC3000000\<close> and \<open>y = 0\<close> the pattern 0.\<close>

definition scenarioCorner :: "int \<Rightarrow> Corner" where
  "scenarioCorner i =
     \<lparr>index = i, rowid = 0, colid = i, groundHeight = 0, waterHeight = 0, mapEdge = 0,
      ramp = 0, blight = 0, water = 0, boundary = 0, groundTexture = 3, groundVariation = 0,
      cliffVariation = 0, cliffTexture = 0, layerHeight = 2\<rparr>"

definition scenarioHeader :: "int \<Rightarrow> int \<Rightarrow> Header" where
  "scenarioHeader w h =
     \<lparr>fileId = ''W3ER'', version = 11, baseTileset = ''O'', hasCustomTileset = 0,
      tilePaletteCount = 1, tilePalette = [''Oaby''],
      cliffTilePaletteCount = 1, cliffTilePalette = [''Oclm''],
      width = w, height = h, x_f32 = 0xC3000000, y_f32 = 0\<rparr>"

definition scenarioDoc :: W3E where
  "scenarioDoc = \<lparr>header = scenarioHeader 2 1, corners = [scenarioCorner 0, scenarioCorner 1]\<rparr>"

text \<open>A 2\<times>1 document that uses every field: fractional heights, both ends of the raw
  ranges, all bits of several bitfields.\<close>

definition sampleDoc :: W3E where
  "sampleDoc =
     \<lparr>header = \<lparr>fileId = ''W3ER'', version = 11, baseTileset = ''L'', hasCustomTileset = 1,
                 tilePaletteCount = 2, tilePalette = [''Ldrt'', ''Lgrs''],
                 cliffTilePaletteCount = 1, cliffTilePalette = [''CLdi''],
                 width = 2, height = 1, x_f32 = 0xC3000000, y_f32 = 0x42800000\<rparr>,
      corners =
        [\<lparr>index = 0, rowid = 0, colid = 0, groundHeight = 49 / 4, waterHeight = - 7 / 2,
          mapEdge = 3, ramp = 1, blight = 0, water = 1, boundary = 1, groundTexture = 15,
          groundVariation = 31, cliffVariation = 7, cliffTexture = 15, layerHeight = 15\<rparr>,
         \<lparr>index = 1, rowid = 0, colid = 1, groundHeight = - 2048, waterHeight = 8191 / 4,
          mapEdge = 2, ramp = 0, blight = 1, water = 0, boundary = 0, groundTexture = 9,
          groundVariation = 16, cliffVariation = 5, cliffTexture = 1, layerHeight = 2\<rparr>]\<rparr>"

definition scenarioBytes :: "8 word list" where
  "scenarioBytes =
     [0x57, 0x33, 0x45, 0x52,  11, 0, 0, 0,  0x4F,  0, 0, 0, 0,
      1, 0, 0, 0,  0x4F, 0x61, 0x62, 0x79,  1, 0, 0, 0,  0x4F, 0x63, 0x6C, 0x6D,
      2, 0, 0, 0,  1, 0, 0, 0,  0, 0, 0, 0xC3,  0, 0, 0, 0,
      0, 0x20, 0, 0x20, 3, 0, 0x20,
      0, 0x20, 0, 0x20, 3, 0, 0x20]"

text \<open>The corner at position 0 with every packed field 0, and the 1\<times>1 document
  holding a single given corner.\<close>

definition zeroCorner :: Corner where
  "zeroCorner =
     \<lparr>index = 0, rowid = 0, colid = 0, groundHeight = 0, waterHeight = 0, mapEdge = 0,
      ramp = 0, blight = 0, water = 0, boundary = 0, groundTexture = 0,
      groundVariation = 0, cliffVariation = 0, cliffTexture = 0, layerHeight = 0\<rparr>"

definition singleDoc :: "Corner \<Rightarrow> W3E" where
  "singleDoc c = \<lparr>header = scenarioHeader 1 1, corners = [c]\<rparr>"

text \<open>The packed fields of a corner, to speak about each of them in turn.\<close>

datatype CornerField =
  GroundHeight | WaterHeight | MapEdge | Ramp | Water | Blight | Boundary |
  GroundTexture | GroundVariation | CliffVariation | CliffTexture | LayerHeight

fun fieldValue :: "CornerField \<Rightarrow> Corner \<Rightarrow> rat" where
  "fieldValue GroundHeight c = groundHeight c"
| "fieldValue WaterHeight c = waterHeight c"
| "fieldValue MapEdge c = of_int (mapEdge c)"
| "fieldValue Ramp c = of_int (ramp c)"
| "fieldValue Water c = of_int (water c)"
| "fieldValue Blight c = of_int (blight c)"
| "fieldValue Boundary c = of_int (boundary c)"
| "fieldValue GroundTexture c = of_int (groundTexture c)"
| "fieldValue GroundVariation c = of_int (groundVariation c)"
| "fieldValue CliffVariation c = of_int (cliffVariation c)"
| "fieldValue CliffTexture c = of_int (cliffTexture c)"
| "fieldValue LayerHeight c = of_int (layerHeight c)"

text \<open>The largest value each field can hold: raw 65535 and raw 16383 for the heights,
  all bits set for a bitfield.\<close>

fun fieldMax :: "CornerField \<Rightarrow> rat" where
  "fieldMax GroundHeight = (65535 - 8192) / 4"
| "fieldMax WaterHeight = (16383 - 8192) / 4"
| "fieldMax MapEdge = 3"
| "fieldMax Ramp = 1"
| "fieldMax Water = 1"
| "fieldMax Blight = 1"
| "fieldMax Boundary = 1"
| "fieldMax GroundTexture = 15"
| "fieldMax GroundVariation = 31"
| "fieldMax CliffVariation = 7"
| "fieldMax CliffTexture = 15"
| "fieldMax LayerHeight = 15"

definition allFields :: "CornerField list" where
  "allFields = [GroundHeight, WaterHeight, MapEdge, Ramp, Water, Blight, Boundary,
                GroundTexture, GroundVariation, CliffVariation, CliffTexture, LayerHeight]"

text \<open>Field \<open>f\<close> of the corner is at its maximum and every other packed field is 0.\<close>

definition onlyMax :: "CornerField \<Rightarrow> Corner \<Rightarrow> bool" where
  "onlyMax f c \<longleftrightarrow>
     list_all (\<lambda>g. fieldValue g c = (if g = f then fieldMax f else 0)) allFields"

text \<open>\<open>bs'\<close> is \<open>bs\<close> followed by zero bytes.\<close>

definition zext :: "8 word list \<Rightarrow> 8 word list \<Rightarrow> bool" where
  "zext bs bs' \<longleftrightarrow> (\<exists>m. bs' = bs @ replicate m 0)"




section \<open>The stream operations on whole bytes\<close>

subsection \<open>Reading and writing the bits of one byte\<close>

lemma shiftCount_small: "0 \<le> n \<Longrightarrow> n < 32 \<Longrightarrow> shiftCount n = nat n"
  by (simp add: shiftCount_def take_bit_int_eq_self)

lemma js_rem_nonneg: "0 \<le> a \<Longrightarrow> js_rem a 8 = a mod 8"
  by (simp add: js_rem_def signed_modulo_int_def sgn_if)

lemma bit_toInt32: "bit (toInt32 v) n \<longleftrightarrow> bit v (min 31 n)"
  by (simp add: toInt32_def bit_signed_take_bit_iff)

lemma toInt32_id: "- (2^31) \<le> v \<Longrightarrow> v < 2^31 \<Longrightarrow> toInt32 v = v"
  unfolding toInt32_def by (simp add: signed_take_bit_int_eq_self)

lemma js_and_1: "0 \<le> a \<Longrightarrow> a < 2^31 \<Longrightarrow> js_and a 1 = a mod 2"
  by (simp add: js_and_def toInt32_id and_one_eq)

lemma js_sar_byte: "0 \<le> b \<Longrightarrow> b < 2^31 \<Longrightarrow> 0 \<le> n \<Longrightarrow> n < 32 \<Longrightarrow> js_sar b n = b div 2 ^ nat n"
  by (simp add: js_sar_def toInt32_id shiftCount_small drop_bit_eq_div)

lemma js_shl_1: "0 \<le> a \<Longrightarrow> a < 2^30 \<Longrightarrow> js_shl a 1 = 2 * a"
  by (simp add: js_shl_def toInt32_id shiftCount_small push_bit_eq_mult)

lemma js_or_bit: "0 \<le> a \<Longrightarrow> a < 2^30 \<Longrightarrow> 0 \<le> b \<Longrightarrow> b < 2 \<Longrightarrow> js_or (2 * a) b = 2 * a + b"
proof -
  assume a: "0 \<le> a" "a < 2^30" "0 \<le> b" "b < 2"
  then have "b = 0 \<or> b = 1" by auto
  then show ?thesis using a
    by (auto simp add: js_or_def toInt32_id or_one_eq)
qed

lemma readUBits_loop_end:
  "int (length buf) \<le> pos div 8 \<Longrightarrow> readUBits_loop n buf acc pos = (acc, pos)"
  by (cases n) (simp_all add: Let_def)

lemma readUBits_loop_in_byte:
  assumes "0 \<le> k" "k < int (length buf)"
  shows "j + n \<le> 8 \<Longrightarrow> 0 \<le> acc \<Longrightarrow> acc < 2 ^ j \<Longrightarrow>
     readUBits_loop n buf acc (8 * k + int j) =
       (acc * 2 ^ n + (uint (buf ! nat k) div 2 ^ (8 - j - n)) mod 2 ^ n, 8 * k + int j + int n)"
proof (induction n arbitrary: acc j)
  case 0
  then show ?case by simp
next
  case (Suc n)
  let ?b = "uint (buf ! nat k)"
  have j: "j < 8" using Suc.prems by simp
  have bidx: "(8 * k + int j) div 8 = k" using j by simp
  have brem: "js_rem (8 * k + int j) 8 = int j"
    using j assms by (simp add: js_rem_nonneg)
  have bb: "0 \<le> ?b" "?b < 256" using uint_lt2p [of "buf ! nat k"] by simp_all
  have cur: "bufferAt buf k = ?b" using assms by (simp add: bufferAt_def)
  define bt where "bt = (?b div 2 ^ (7 - j)) mod 2"
  have sh: "js_sar ?b (7 - int j) = ?b div 2 ^ (7 - j)"
    using bb j by (simp add: js_sar_byte nat_diff_distrib)
  have "?b div 2 ^ (7 - j) \<le> ?b div 1"
    using bb by (intro zdiv_mono2) simp_all
  then have shb: "0 \<le> ?b div 2 ^ (7 - j)" "?b div 2 ^ (7 - j) < 2^31"
    using bb by (simp_all add: div_int_pos_iff)
  have bit: "js_and (js_sar ?b (7 - int j)) 1 = bt"
    unfolding sh bt_def using shb by (simp add: js_and_1)
  have accb: "acc < 2 ^ 30"
    using Suc.prems j power_strict_increasing [of j 30 "2::int"] by simp
  have acc': "js_or (js_shl acc 1) bt = 2 * acc + bt"
    using Suc.prems accb by (simp add: js_shl_1 js_or_bit bt_def)
  have n1: "0 \<le> 2 * acc + bt" "2 * acc + bt < 2 ^ Suc j"
    using Suc.prems by (simp_all add: bt_def)
  have step: "readUBits_loop (Suc n) buf acc (8 * k + int j) =
      readUBits_loop n buf (2 * acc + bt) (8 * k + int (Suc j))"
  proof -
    have "\<not> int (length buf) \<le> k" using assms by simp
    moreover have "8 * k + int j + 1 = 8 * k + int (Suc j)" by simp
    ultimately show ?thesis
      by (simp only: readUBits_loop.simps Let_def bidx brem cur bit acc' if_False)
  qed
  have IH: "readUBits_loop n buf (2 * acc + bt) (8 * k + int (Suc j)) =
      ((2 * acc + bt) * 2 ^ n + (?b div 2 ^ (8 - Suc j - n)) mod 2 ^ n, 8 * k + int (Suc j) + int n)"
    using Suc.IH [of "Suc j" "2 * acc + bt"] Suc.prems n1 by simp
  define x where "x = ?b div 2 ^ (8 - Suc j - n)"
  have e1: "7 - j = (8 - Suc j - n) + n" using Suc.prems by simp
  have btx: "bt = (x div 2 ^ n) mod 2"
    unfolding bt_def x_def e1 by (simp add: power_add zdiv_zmult2_eq)
  have "x mod 2 ^ Suc n = 2 ^ n * (x div 2 ^ n mod 2) + x mod 2 ^ n"
    using zmod_zmult2_eq [of 2 x "2 ^ n"] by (simp add: mult.commute)
  then have "(2 * acc + bt) * 2 ^ n + x mod 2 ^ n = acc * 2 ^ Suc n + x mod 2 ^ Suc n"
    by (simp add: btx algebra_simps)
  moreover have "8 - j - Suc n = 8 - Suc j - n" by simp
  ultimately show ?case unfolding step IH x_def by simp
qed

lemma readUBits_loop_byte:
  assumes "0 \<le> k" "k < int (length buf)"
  shows "readUBits_loop 8 buf 0 (8 * k) = (uint (buf ! nat k), 8 * k + 8)"
  using readUBits_loop_in_byte [OF assms, of 0 8 0] uint_lt2p [of "buf ! nat k"]
  by simp

lemma stored_bit:
  assumes "i < 8"
  shows "(word_of_int (js_or (js_and (uint b) (js_not (js_shl 1 (int i))))
                        (js_shl (js_and (js_sar v (int i)) 1) (int i))) :: 8 word)
         = (b AND NOT (push_bit i 1)) OR push_bit i (of_bool (bit v i))"
proof (rule bit_word_eqI)
  fix n assume "n < LENGTH(8)"
  then have n: "n < 8" by simp
  have sc: "shiftCount (int i) = i" using assms by (simp add: shiftCount_small)
  show "bit (word_of_int (js_or (js_and (uint b) (js_not (js_shl 1 (int i))))
                        (js_shl (js_and (js_sar v (int i)) 1) (int i))) :: 8 word) n
     = bit ((b AND NOT (push_bit i 1)) OR push_bit i (of_bool (bit v i))) n"
    using n assms
    by (auto simp add: js_or_def js_and_def js_not_def js_shl_def js_sar_def toInt32_def sc
        bit_simps min_def)
qed

lemma writeUBits_loop_in_byte:
  assumes "0 \<le> k"
  shows "k < int (length buf) \<Longrightarrow> n \<le> 8 \<Longrightarrow>
    writeUBits_loop n v buf (8 * k + int (8 - n)) =
      (buf[nat k := (buf ! nat k AND NOT (mask n)) OR take_bit n (word_of_int v)], 8 * k + 8)"
proof (induction n arbitrary: buf)
  case 0
  then show ?case by simp
next
  case (Suc i)
  let ?pos = "8 * k + int (8 - Suc i)"
  let ?b = "buf ! nat k"
  have i: "i < 8" using Suc.prems by simp
  have bidx: "?pos div 8 = k" using i by simp
  have brem: "js_rem ?pos 8 = int (7 - i)" using i assms by (simp add: js_rem_nonneg)
  have sh: "7 - int (7 - i) = int i" using i by simp
  have cur: "bufferAt buf k = uint ?b" using assms Suc.prems by (simp add: bufferAt_def)
  define w where "w = (?b AND NOT (push_bit i 1)) OR push_bit i (of_bool (bit v i))"
  have set: "bufferSet buf k (js_or (js_and (uint ?b) (js_not (js_shl 1 (int i))))
                        (js_shl (js_and (js_sar v (int i)) 1) (int i))) = buf[nat k := w]"
    using assms Suc.prems by (simp add: bufferSet_def stored_bit [OF i] w_def)
  have nxt: "?pos + 1 = 8 * k + int (8 - i)" using i by simp
  have step: "writeUBits_loop (Suc i) v buf ?pos = writeUBits_loop i v (buf[nat k := w]) (8 * k + int (8 - i))"
    by (simp only: writeUBits_loop.simps Let_def bidx brem sh cur set nxt)
  have IH: "writeUBits_loop i v (buf[nat k := w]) (8 * k + int (8 - i)) =
      ((buf[nat k := w])[nat k := ((buf[nat k := w]) ! nat k AND NOT (mask i)) OR take_bit i (word_of_int v)], 8 * k + 8)"
    using Suc.IH [of "buf[nat k := w]"] Suc.prems by simp
  have kk: "nat k < length buf" using assms Suc.prems by simp
  have "(w AND NOT (mask i)) OR take_bit i (word_of_int v) =
        (?b AND NOT (mask (Suc i))) OR take_bit (Suc i) (word_of_int v)"
    unfolding w_def
    by (rule bit_word_eqI) (auto simp add: bit_simps less_Suc_eq)
  then show ?case unfolding step IH using kk by simp
qed

lemma writeUBits_loop_byte:
  assumes "0 \<le> k" "k < int (length buf)"
  shows "writeUBits_loop 8 v buf (8 * k) = (buf[nat k := word_of_int v], 8 * k + 8)"
proof -
  have "(buf ! nat k AND NOT (mask 8)) OR take_bit 8 (word_of_int v) = (word_of_int v :: 8 word)"
    by (rule bit_word_eqI) (auto simp add: bit_simps)
  then show ?thesis
    using writeUBits_loop_in_byte [OF assms(1), of buf 8 v] assms(2) by simp
qed

subsection \<open>Writes append bytes\<close>

lemma bindW_simps [simp]:
  "bindW None f = None"
  "bindW (Some (Inl e)) f = Some (Inl e)"
  "bindW (Some (Inr a)) f = f a"
  by (simp_all add: bindW_def)

lemma bindR_simps [simp]:
  "bindR (Inl e) f = Inl e"
  "bindR (Inr a) f = f a"
  by (simp_all add: bindR_def)

lemma growLength_returns:
  "0 < n \<Longrightarrow> \<exists>m. growLength n r = Some m \<and> r \<le> m \<and> n \<le> m"
proof (induction "nat (r - n)" arbitrary: n rule: less_induct)
  case less
  show ?case
  proof (cases "n < r")
    case True
    then have "nat (r - n * 2) < nat (r - n)" using less.prems by simp
    from less.hyps [OF this] less.prems
    obtain m where "growLength (n * 2) r = Some m" "r \<le> m" "n * 2 \<le> m" by auto
    then show ?thesis using True less.prems by (subst growLength.simps) auto
  next
    case False
    then show ?thesis by (subst growLength.simps) simp
  qed
qed

lemma ensureCapacity_grows:
  assumes "isWriting s" "0 < length (buffer s)"
  shows "\<exists>m. ensureCapacity s bits = Some (Inr (s\<lparr>buffer := buffer s @ replicate m 0\<rparr>)) \<and>
             ceil8 (bitPosition s + int bits) \<le> int (length (buffer s) + m)"
proof (cases "ceil8 (bitPosition s + int bits) > int (length (buffer s))")
  case True
  from growLength_returns [of "int (length (buffer s)) * 2" "ceil8 (bitPosition s + int bits)"] assms
  obtain n where n: "growLength (int (length (buffer s)) * 2) (ceil8 (bitPosition s + int bits)) = Some n"
    "ceil8 (bitPosition s + int bits) \<le> n" "int (length (buffer s)) * 2 \<le> n" by auto
  have "ensureCapacity s bits =
      Some (Inr (s\<lparr>buffer := buffer s @ replicate (nat n - length (buffer s)) 0\<rparr>))"
    using assms True n by (simp add: ensureCapacity_def Let_def)
  moreover have "ceil8 (bitPosition s + int bits) \<le> int (length (buffer s) + (nat n - length (buffer s)))"
    using n by simp
  ultimately show ?thesis by blast
next
  case False
  then have "ensureCapacity s bits = Some (Inr (s\<lparr>buffer := buffer s @ replicate 0 0\<rparr>))"
    using assms by (simp add: ensureCapacity_def Let_def)
  then show ?thesis using False by (intro exI [of _ 0]) simp
qed

lemma writeUBits_byte:
  assumes "winv s"
  shows "\<exists>s'. writeUBits s v 8 = Some (Inr s') \<and> winv s' \<and>
               written s' = written s @ [word_of_int v]"
proof -
  define k where "k = bitPosition s div 8"
  have k: "0 \<le> k" "bitPosition s = 8 * k" "k \<le> int (length (buffer s))"
    using assms unfolding winv_def k_def by auto
  from ensureCapacity_grows [of s 8] assms
  obtain m where m: "ensureCapacity s 8 = Some (Inr (s\<lparr>buffer := buffer s @ replicate m 0\<rparr>))"
    "ceil8 (bitPosition s + 8) \<le> int (length (buffer s) + m)"
    unfolding winv_def by auto
  define buf1 where "buf1 = buffer s @ replicate m (0 :: 8 word)"
  have "ceil8 (8 * k + 8) = k + 1" by (simp add: ceil8_def)
  then have k1: "k < int (length buf1)" using m(2) k by (simp add: buf1_def)
  have loop: "writeUBits_loop 8 v buf1 (8 * k) = (buf1[nat k := word_of_int v], 8 * k + 8)"
    using k(1) k1 by (rule writeUBits_loop_byte)
  define s' where "s' = s\<lparr>buffer := buf1[nat k := word_of_int v], bitPosition := 8 * k + 8\<rparr>"
  have res: "writeUBits s v 8 = Some (Inr s')"
    by (simp add: writeUBits_def m(1) k(2) loop s'_def buf1_def [symmetric])
  have inv: "winv s'"
    using assms k k1 by (auto simp add: winv_def s'_def)
  have nk: "nat k \<le> length (buffer s)" "nat k < length buf1" using k k1 by simp_all
  have "(8 * k + 8) div 8 = k + 1" by simp
  then have "written s' = take (Suc (nat k)) (buf1[nat k := word_of_int v])"
    using k(1) by (simp add: written_def s'_def nat_add_distrib)
  also have "\<dots> = take (nat k) buf1 @ [word_of_int v]"
    using nk(2) by (simp add: take_Suc_conv_app_nth)
  also have "take (nat k) buf1 = written s"
    using nk(1) k by (simp add: buf1_def written_def)
  finally show ?thesis using res inv by blast
qed

lemma emits_writeUBits: "emits (\<lambda>s. writeUBits s v 8) [word_of_int v]"
  unfolding emits_def using writeUBits_byte by blast

lemma emits_return: "emits (\<lambda>s. Some (Inr s)) []"
  by (simp add: emits_def)

lemma emits_bind:
  assumes "emits m1 b1" "emits m2 b2"
  shows "emits (\<lambda>s. bindW (m1 s) m2) (b1 @ b2)"
  unfolding emits_def
proof (intro allI impI)
  fix s assume "winv s"
  with assms(1) obtain s1 where s1: "m1 s = Some (Inr s1)" "winv s1" "written s1 = written s @ b1"
    unfolding emits_def by blast
  with assms(2) obtain s2 where s2: "m2 s1 = Some (Inr s2)" "winv s2" "written s2 = written s1 @ b2"
    unfolding emits_def by blast
  show "\<exists>s'. bindW (m1 s) m2 = Some (Inr s') \<and> winv s' \<and> written s' = written s @ b1 @ b2"
    using s1 s2 by simp
qed

lemma shiftCount_numerals [simp]:
  "shiftCount 0 = 0" "shiftCount 1 = 1" "shiftCount 4 = 4" "shiftCount 5 = 5" "shiftCount 6 = 6"
  "shiftCount 7 = 7" "shiftCount 8 = 8" "shiftCount 14 = 14" "shiftCount 16 = 16"
  "shiftCount 24 = 24"
  by (simp_all add: shiftCount_def)

lemma w8_js_and: "(word_of_int (js_and a b) :: 8 word) = word_of_int a AND word_of_int b"
  by (rule bit_word_eqI) (simp add: js_and_def toInt32_def bit_simps min_def)

lemma w8_js_or: "(word_of_int (js_or a b) :: 8 word) = word_of_int a OR word_of_int b"
  by (rule bit_word_eqI) (simp add: js_or_def toInt32_def bit_simps min_def)

lemma w8_js_shl:
  "shiftCount n = k \<Longrightarrow> (word_of_int (js_shl a n) :: 8 word) = push_bit k (word_of_int a)"
  by (rule bit_word_eqI) (auto simp add: js_shl_def toInt32_def bit_simps min_def)

lemma w8_js_sar:
  assumes "shiftCount n = k" "k \<le> 24"
  shows "(word_of_int (js_sar a n) :: 8 word) = word_of_int (drop_bit k a)"
proof (rule bit_word_eqI)
  fix m assume "m < LENGTH(8)"
  then have m: "m < 8" by simp
  then have "min 31 (k + m) = k + m" using assms(2) by simp
  then show "bit (word_of_int (js_sar a n) :: 8 word) m = bit (word_of_int (drop_bit k a) :: 8 word) m"
    using m by (simp add: js_sar_def toInt32_def bit_simps assms(1))
qed

lemma w8_255: "(w :: 8 word) AND 255 = w"
proof -
  have "(255 :: 8 word) = mask 8" by (simp add: mask_eq_exp_minus_1)
  then have "w AND 255 = take_bit 8 w" by (simp only: take_bit_eq_mask)
  also have "\<dots> = w" by (rule take_bit_word_eq_self) simp
  finally show ?thesis .
qed

lemma w8_byte0: "(word_of_int (js_and v 255) :: 8 word) = word_of_int v"
  by (simp add: w8_js_and w8_255)

lemma w8_sar8: "(word_of_int (js_sar v 8) :: 8 word) = word_of_int (drop_bit 8 v)"
  by (rule w8_js_sar) simp_all

lemma w8_sar16: "(word_of_int (js_sar v 16) :: 8 word) = word_of_int (drop_bit 16 v)"
  by (rule w8_js_sar) simp_all

lemma w8_sar24: "(word_of_int (js_sar v 24) :: 8 word) = word_of_int (drop_bit 24 v)"
  by (rule w8_js_sar) simp_all

lemma emits_cong: "emits m bs \<Longrightarrow> bs = bs' \<Longrightarrow> emits m bs'"
  by simp

lemma emits_writeUInt8: "emits (\<lambda>s. writeUInt8 s v) [word_of_int v]"
  unfolding writeUInt8_def by (rule emits_writeUBits)

lemma emits_writeUInt16: "emits (\<lambda>s. writeUInt16 s v) (u16_bytes v)"
  unfolding writeUInt16_def
  by (rule emits_cong, rule emits_bind, rule emits_writeUBits, rule emits_writeUBits)
     (simp add: u16_bytes_def w8_byte0 w8_sar8)

lemma emits_writeUInt32: "emits (\<lambda>s. writeUInt32 s v) (u32_bytes v)"
  unfolding writeUInt32_def
  by (rule emits_cong, (rule emits_bind, rule emits_writeUBits)+, rule emits_writeUBits)
     (simp add: u32_bytes_def w8_byte0 w8_sar8 w8_sar16 w8_sar24)

lemma four: "4 = Suc (Suc (Suc (Suc 0)))"
  by simp

lemma w8_uint: "(word_of_int (uint (w :: 8 word)) :: 8 word) = w"
  by simp

lemma emits_writeFloat32: "emits (\<lambda>s. writeFloat32 s w) (setFloat32 w)"
  unfolding writeFloat32_def four writeFloat32_loop.simps
  by (rule emits_cong, (rule emits_bind, rule emits_writeUBits)+, rule emits_return)
     (simp add: setFloat32_def)

lemma emits_writeString8: "emits (\<lambda>s. writeString8 s str) (str8_bytes str)"
  unfolding writeString8_def str8_bytes_def by (rule emits_writeUBits)

lemma emits_writeString32: "emits (\<lambda>s. writeString32 s str) (str32_bytes str)"
  unfolding writeString32_def four writeString32_loop.simps
  by (rule emits_cong, (rule emits_bind, rule emits_writeString8)+, rule emits_return)
     (simp add: str32_bytes_def)

lemma emits_writeString32Array: "emits (\<lambda>s. writeString32Array s arr) (tags_bytes arr)"
proof (induction arr)
  case Nil
  show ?case by (simp add: tags_bytes_def emits_return)
next
  case (Cons str arr)
  have "emits (\<lambda>s. bindW (writeString32 s str) (\<lambda>s1. writeString32Array s1 arr))
          (str32_bytes str @ tags_bytes arr)"
    by (rule emits_bind [OF emits_writeString32 Cons.IH])
  then show ?case by (simp add: tags_bytes_def)
qed

subsection \<open>Reads consume bytes\<close>

lemma js_shr_0: "js_shr a 0 = take_bit 32 a"
  by (simp add: js_shr_def toUint32_def)

lemma pad_0 [simp]: "pad 0 bs = []"
  by (simp add: pad_def)

lemma pad_Suc: "pad (Suc n) bs = cur bs # pad n (tl bs)"
  by (cases bs) (simp_all add: pad_def cur_def replicate_append_same)

lemma pad_numerals:
  "pad 1 bs = [cur bs]"
  "pad 2 bs = [cur bs, cur (tl bs)]"
  "pad 4 bs = [cur bs, cur (tl bs), cur (tl (tl bs)), cur (tl (tl (tl bs)))]"
  "pad 6 bs = [cur bs, cur (tl bs), cur (tl (tl bs)), cur (tl (tl (tl bs))),
               cur (tl (tl (tl (tl bs)))), cur (tl (tl (tl (tl (tl bs)))))]"
  by (simp_all add: eval_nat_numeral pad_Suc)

lemma drop_numerals:
  "drop 1 bs = tl bs"
  "drop 2 bs = tl (tl bs)"
  "drop 4 bs = tl (tl (tl (tl bs)))"
  "drop 6 bs = tl (tl (tl (tl (tl (tl bs)))))"
  by (simp_all add: eval_nat_numeral drop_Suc)

lemma bit_byte_high [simp]: "8 \<le> n \<Longrightarrow> \<not> bit (b :: 8 word) n"
  by (auto dest: bit_imp_le_length)

lemma readUBits_byte:
  assumes "rinv s"
  shows "\<exists>s'. readUBits s 8 True = Inr (fst (p_u8 (rest s)), s') \<and> rinv s' \<and>
              rest s' = snd (p_u8 (rest s))"
proof -
  define k where "k = bitPosition s div 8"
  have k: "0 \<le> k" "bitPosition s = 8 * k" "k \<le> int (length (buffer s))" "\<not> isWriting s"
    using assms unfolding rinv_def k_def by auto
  show ?thesis
  proof (cases "k < int (length (buffer s))")
    case True
    have loop: "readUBits_loop 8 (buffer s) 0 (8 * k) = (uint (buffer s ! nat k), 8 * k + 8)"
      using k(1) True by (rule readUBits_loop_byte)
    have r: "rest s = buffer s ! nat k # drop (Suc (nat k)) (buffer s)"
      using True k by (simp add: rest_def Cons_nth_drop_Suc)
    have tb: "take_bit 32 (uint (buffer s ! nat k)) = uint (buffer s ! nat k)"
      using uint_lt2p [of "buffer s ! nat k"] by (simp add: take_bit_int_eq_self)
    have "readUBits s 8 True = Inr (uint (buffer s ! nat k), s\<lparr>bitPosition := 8 * k + 8\<rparr>)"
      using k by (simp add: readUBits_def loop js_shr_0 tb)
    moreover have "rinv (s\<lparr>bitPosition := 8 * k + 8\<rparr>)"
      using k True by (simp add: rinv_def)
    moreover have "rest (s\<lparr>bitPosition := 8 * k + 8\<rparr>) = drop (Suc (nat k)) (buffer s)"
      using k by (simp add: rest_def nat_add_distrib)
    ultimately show ?thesis
      by (simp add: r p_u8_def cur_def)
  next
    case False
    then have e: "int (length (buffer s)) \<le> (8 * k) div 8" using k by simp
    have "s\<lparr>bitPosition := 8 * k\<rparr> = s" using k by simp
    then have "readUBits s 8 True = Inr (0, s)"
      using k by (simp add: readUBits_def readUBits_loop_end [OF e] js_shr_0)
    moreover have "rest s = []" using False k by (simp add: rest_def)
    ultimately show ?thesis using assms by (simp add: p_u8_def cur_def)
  qed
qed

lemma yields_readUBits: "yields (\<lambda>s. readUBits s 8 True) p_u8"
  unfolding yields_def using readUBits_byte by blast

lemma yields_return: "yields (\<lambda>s. Inr (v, s)) (\<lambda>bs. (v, bs))"
  by (simp add: yields_def)

lemma yields_bind:
  assumes "yields m f" "\<And>a. yields (g a) (h a)"
  shows "yields (\<lambda>s. bindR (m s) (\<lambda>(a, s1). g a s1)) (\<lambda>bs. case f bs of (a, r) \<Rightarrow> h a r)"
  unfolding yields_def
proof (intro allI impI)
  fix s assume "rinv s"
  with assms(1) obtain s1 where s1: "m s = Inr (fst (f (rest s)), s1)" "rinv s1"
    "rest s1 = snd (f (rest s))"
    unfolding yields_def by blast
  from assms(2) [of "fst (f (rest s))"] s1(2)
  obtain s2 where s2: "g (fst (f (rest s))) s1 = Inr (fst (h (fst (f (rest s))) (rest s1)), s2)"
    "rinv s2" "rest s2 = snd (h (fst (f (rest s))) (rest s1))"
    unfolding yields_def by blast
  show "\<exists>s'. bindR (m s) (\<lambda>(a, s1). g a s1) =
           Inr (fst (case f (rest s) of (a, r) \<Rightarrow> h a r), s') \<and> rinv s' \<and>
           rest s' = snd (case f (rest s) of (a, r) \<Rightarrow> h a r)"
    using s1 s2 by (simp add: case_prod_unfold)
qed

lemma yields_cong: "yields m f \<Longrightarrow> (\<And>bs. f bs = g bs) \<Longrightarrow> yields m g"
  by (simp add: yields_def)

lemma js_le16:
  "js_or (uint (b0 :: 8 word)) (js_shl (uint (b1 :: 8 word)) 8) = le_int [b0, b1]"
  by (rule bit_eqI) (auto simp add: js_or_def js_shl_def toInt32_def bit_simps min_def)

lemma js_le32:
  "js_shr (js_or (js_or (js_or (uint (b0 :: 8 word)) (js_shl (uint (b1 :: 8 word)) 8))
                        (js_shl (uint (b2 :: 8 word)) 16))
                 (js_shl (uint (b3 :: 8 word)) 24)) 0 = le_int [b0, b1, b2, b3]"
  (is "?l = ?r")
proof (rule bit_eqI)
  fix n :: nat
  consider "n < 31" | "n = 31" | "32 \<le> n" by linarith
  then show "bit ?l n = bit ?r n"
  proof cases
    case 1
    then show ?thesis
      by (auto simp add: js_shr_0 js_or_def js_shl_def toInt32_def bit_simps min_def)
  next
    case 2
    then show ?thesis
      by (simp add: js_shr_0 js_or_def js_shl_def toInt32_def bit_simps)
  next
    case 3
    then have "8 \<le> n - 24" "8 \<le> n - 16" "8 \<le> n - 8" "8 \<le> n" by simp_all
    then show ?thesis using 3
      by (simp add: js_shr_0 bit_simps)
  qed
qed

lemma yields_readUInt16: "yields (\<lambda>s. readUInt16 s True) p_u16"
  apply (simp only: readUInt16_def not_True_eq_False if_False)
  apply (rule yields_cong)
   apply (rule yields_bind, rule yields_readUBits)
   apply (rule yields_bind, rule yields_readUBits)
   apply (rule yields_return)
  apply (simp add: p_u8_def p_u16_def js_le16 pad_numerals drop_numerals)
  done

lemma yields_readUInt32: "yields (\<lambda>s. readUInt32 s True) p_u32"
  apply (simp only: readUInt32_def not_True_eq_False if_False)
  apply (rule yields_cong)
   apply (rule yields_bind, rule yields_readUBits)
   apply (rule yields_bind, rule yields_readUBits)
   apply (rule yields_bind, rule yields_readUBits)
   apply (rule yields_bind, rule yields_readUBits)
   apply (rule yields_return)
  apply (simp add: p_u8_def p_u32_def js_le32 pad_numerals drop_numerals)
  done

lemma yieldsV_return: "yieldsV (\<lambda>s. Inr v) (\<lambda>bs. v)"
  by (simp add: yieldsV_def)

lemma yieldsV_bind:
  assumes "yields m f" "\<And>a. yieldsV (g a) (h a)"
  shows "yieldsV (\<lambda>s. bindR (m s) (\<lambda>(a, s1). g a s1)) (\<lambda>bs. case f bs of (a, r) \<Rightarrow> h a r)"
  unfolding yieldsV_def
proof (intro allI impI)
  fix s assume "rinv s"
  with assms(1) obtain s1 where s1: "m s = Inr (fst (f (rest s)), s1)" "rinv s1"
    "rest s1 = snd (f (rest s))"
    unfolding yields_def by blast
  from assms(2) [of "fst (f (rest s))"] s1(2)
  have "g (fst (f (rest s))) s1 = Inr (h (fst (f (rest s))) (rest s1))"
    unfolding yieldsV_def by blast
  then show "bindR (m s) (\<lambda>(a, s1). g a s1) = Inr (case f (rest s) of (a, r) \<Rightarrow> h a r)"
    using s1 by (simp add: case_prod_unfold)
qed

lemma yieldsV_cong: "yieldsV m f \<Longrightarrow> (\<And>bs. f bs = g bs) \<Longrightarrow> yieldsV m g"
  by (simp add: yieldsV_def)

lemma yields_readUInt8: "yields (\<lambda>s. readUInt8 s True) p_u8"
  unfolding readUInt8_def by (rule yields_readUBits)

lemma yields_readString8: "yields (\<lambda>s. readString8 s True) p_str8"
  apply (simp only: readString8_def not_True_eq_False if_False)
  apply (rule yields_cong)
   apply (rule yields_bind, rule yields_readUBits)
   apply (rule yields_return)
  apply (simp add: p_u8_def p_str8_def)
  done

lemma yields_readString32: "yields (\<lambda>s. readString32 s True) p_str32"
  apply (simp only: readString32_def not_True_eq_False if_False four readString32_loop.simps)
  apply (rule yields_cong)
   apply (rule yields_bind)
    apply (rule yields_bind, rule yields_readString8)
    apply (rule yields_bind, rule yields_readString8)
    apply (rule yields_bind, rule yields_readString8)
    apply (rule yields_bind, rule yields_readString8)
    apply (rule yields_return)
   apply (rule yields_return)
  apply (simp add: p_str8_def p_str32_def pad_numerals drop_numerals)
  done

lemma yields_readFloat32: "yields (\<lambda>s. readFloat32 s True) p_f32"
  apply (simp only: readFloat32_def not_True_eq_False if_False four readFloat32_loop.simps)
  apply (rule yields_cong)
   apply (rule yields_bind)
    apply (rule yields_bind, rule yields_readUBits)
    apply (rule yields_bind, rule yields_readUBits)
    apply (rule yields_bind, rule yields_readUBits)
    apply (rule yields_bind, rule yields_readUBits)
    apply (rule yields_return)
   apply (rule yields_return)
  apply (simp add: p_u8_def p_f32_def eval_nat_numeral pad_Suc drop_Suc)
  done

lemma yields_readString32Array_loop:
  "yields (\<lambda>s. readString32Array_loop n s arr)
          (\<lambda>bs. case p_tags n bs of (ts, r) \<Rightarrow> (arr @ ts, r))"
proof (induction n arbitrary: arr)
  case 0
  show ?case by (simp add: yields_return)
next
  case (Suc n)
  show ?case
    apply (simp only: readString32Array_loop.simps)
    apply (rule yields_cong)
     apply (rule yields_bind, rule yields_readString32)
     apply (rule Suc.IH)
    apply (simp add: case_prod_unfold)
    done
qed

lemma yields_readString32Array: "yields (\<lambda>s. readString32Array s len) (p_tags (nat len))"
  unfolding readString32Array_def
  by (rule yields_cong, rule yields_readString32Array_loop) (simp add: case_prod_unfold)

lemma tl_drop: "tl (drop n bs) = drop (Suc n) bs"
  by (simp add: drop_Suc tl_drop)

lemma yields_readCorner: "yields (readCorner w i) (p_corner w i)"
  unfolding readCorner_def [abs_def] Let_def
  apply (rule yields_cong)
   apply (rule yields_bind, rule yields_readUInt16)
   apply (rule yields_bind, rule yields_readUInt16)
   apply (rule yields_bind, rule yields_readUInt8)
   apply (rule yields_bind, rule yields_readUInt8)
   apply (rule yields_bind, rule yields_readUInt8)
   apply (rule yields_return)
  apply (simp add: p_u8_def p_u16_def p_corner_def mkCorner_def tl_drop eval_nat_numeral)
  done

lemma yields_readCorners:
  "yields (readCorners n w i cs)
          (\<lambda>bs. case p_corners n w i bs of (cs', r) \<Rightarrow> (cs @ cs', r))"
proof (induction n arbitrary: i cs)
  case 0
  show ?case by (simp add: yields_return)
next
  case (Suc n)
  show ?case
    unfolding readCorners.simps [abs_def]
    apply (rule yields_cong)
     apply (rule yields_bind, rule yields_readCorner)
     apply (rule Suc.IH)
    apply (simp add: case_prod_unfold)
    done
qed

lemma yieldsV_decode:
  "yieldsV (\<lambda>s. 
      bindR (readString32 s True) (\<lambda>(fid, s1).
      bindR (readUInt32 s1 True) (\<lambda>(ver, s2).
      bindR (readString8 s2 True) (\<lambda>(tileset, s3).
      bindR (readUInt32 s3 True) (\<lambda>(custom, s4).
      bindR (readUInt32 s4 True) (\<lambda>(tpc, s5).
      bindR (readString32Array s5 tpc) (\<lambda>(tp, s6).
      bindR (readUInt32 s6 True) (\<lambda>(cpc, s7).
      bindR (readString32Array s7 cpc) (\<lambda>(cp, s8).
      bindR (readUInt32 s8 True) (\<lambda>(w, s9).
      bindR (readUInt32 s9 True) (\<lambda>(h, s10).
      bindR (readFloat32 s10 True) (\<lambda>(px, s11).
      bindR (readFloat32 s11 True) (\<lambda>(py, s12).
        bindR (readCorners (nat (w * h)) w 0 [] s12) (\<lambda>(cs, s13).
          Inr \<lparr>header = \<lparr>fileId = fid, version = ver, baseTileset = tileset,
                   hasCustomTileset = custom,
                   tilePaletteCount = tpc, tilePalette = tp,
                   cliffTilePaletteCount = cpc, cliffTilePalette = cp,
                   width = w, height = h, x_f32 = px, y_f32 = py\<rparr>, corners = cs\<rparr>))))))))))))))
    parseW3E"
  apply (rule yieldsV_cong)
   apply (rule yieldsV_bind, rule yields_readString32)
   apply (rule yieldsV_bind, rule yields_readUInt32)
   apply (rule yieldsV_bind, rule yields_readString8)
   apply (rule yieldsV_bind, rule yields_readUInt32)
   apply (rule yieldsV_bind, rule yields_readUInt32)
   apply (rule yieldsV_bind, rule yields_readString32Array)
   apply (rule yieldsV_bind, rule yields_readUInt32)
   apply (rule yieldsV_bind, rule yields_readString32Array)
   apply (rule yieldsV_bind, rule yields_readUInt32)
   apply (rule yieldsV_bind, rule yields_readUInt32)
   apply (rule yieldsV_bind, rule yields_readFloat32)
   apply (rule yieldsV_bind, rule yields_readFloat32)
   apply (rule yieldsV_bind, rule yields_readCorners)
   apply (rule yieldsV_return)
  apply (simp add: parseW3E_def case_prod_unfold)
  done

lemma rinv_new: "rinv (newBitStream (Some buf))" "rest (newBitStream (Some buf)) = buf"
  by (simp_all add: rinv_def rest_def newBitStream_def)

lemma decodeW3e_parse: "decodeW3e buf = Inr (parseW3E buf)"
proof -
  note h = yieldsV_decode [unfolded yieldsV_def, rule_format, OF rinv_new(1) [of buf]]
  show ?thesis unfolding decodeW3e_def Let_def
    by (rule h [unfolded rinv_new(2)])
qed

lemma emits_writeCorner: "emits (\<lambda>s. writeCorner s corner) (corner_bytes corner)"
  unfolding writeCorner_def Let_def
  apply (rule emits_cong)
   apply (rule emits_bind, rule emits_writeUInt16)
   apply (rule emits_bind, rule emits_writeUInt16)
   apply (rule emits_bind, rule emits_writeUInt8)
   apply (rule emits_bind, rule emits_writeUInt8)
   apply (rule emits_writeUInt8)
  apply (simp add: corner_bytes_def waterWord_def flagsByte_def variationByte_def cliffByte_def)
  done

lemma emits_writeCorners: "emits (\<lambda>s. writeCorners s cs) (concat (map corner_bytes cs))"
proof (induction cs)
  case Nil
  show ?case by (simp add: emits_return)
next
  case (Cons corner cs)
  have "emits (\<lambda>s. bindW (writeCorner s corner) (\<lambda>s1. writeCorners s1 cs))
          (corner_bytes corner @ concat (map corner_bytes cs))"
    by (rule emits_bind [OF emits_writeCorner Cons.IH])
  then show ?case by simp
qed

lemma emits_encode:
  "emits (\<lambda>s.
      bindW (writeString32 s (fileId hdr)) (\<lambda>s1.
      bindW (writeUInt32 s1 (version hdr)) (\<lambda>s2.
      bindW (writeString8 s2 (baseTileset hdr)) (\<lambda>s3.
      bindW (writeUInt32 s3 (hasCustomTileset hdr)) (\<lambda>s4.
      bindW (writeUInt32 s4 (tilePaletteCount hdr)) (\<lambda>s5.
      bindW (writeString32Array s5 (tilePalette hdr)) (\<lambda>s6.
      bindW (writeUInt32 s6 (cliffTilePaletteCount hdr)) (\<lambda>s7.
      bindW (writeString32Array s7 (cliffTilePalette hdr)) (\<lambda>s8.
      bindW (writeUInt32 s8 (width hdr)) (\<lambda>s9.
      bindW (writeUInt32 s9 (height hdr)) (\<lambda>s10.
      bindW (writeFloat32 s10 (x_f32 hdr)) (\<lambda>s11.
      bindW (writeFloat32 s11 (y_f32 hdr)) (\<lambda>s12.
        writeCorners s12 cs)))))))))))))
    (header_bytes hdr @ concat (map corner_bytes cs))"
  apply (rule emits_cong)
   apply (rule emits_bind, rule emits_writeString32)
   apply (rule emits_bind, rule emits_writeUInt32)
   apply (rule emits_bind, rule emits_writeString8)
   apply (rule emits_bind, rule emits_writeUInt32)
   apply (rule emits_bind, rule emits_writeUInt32)
   apply (rule emits_bind, rule emits_writeString32Array)
   apply (rule emits_bind, rule emits_writeUInt32)
   apply (rule emits_bind, rule emits_writeString32Array)
   apply (rule emits_bind, rule emits_writeUInt32)
   apply (rule emits_bind, rule emits_writeUInt32)
   apply (rule emits_bind, rule emits_writeFloat32)
   apply (rule emits_bind, rule emits_writeFloat32)
   apply (rule emits_writeCorners)
  apply (simp add: header_bytes_def)
  done

lemma winv_new: "winv (newBitStream None)" "written (newBitStream None) = []"
  by (simp_all add: winv_def written_def newBitStream_def)

lemma getBuffer_written: "winv s \<Longrightarrow> getBuffer s = Inr (written s)"
proof -
  assume w: "winv s"
  then have "ceil8 (bitPosition s) = bitPosition s div 8" "0 \<le> bitPosition s div 8"
    unfolding winv_def ceil8_def by (auto simp add: div_minus_right zdiv_zminus1_eq_if)
  then show ?thesis using w by (simp add: getBuffer_def slice0_def written_def winv_def)
qed

lemma bindW_assoc: "bindW (bindW m f) g = bindW m (\<lambda>a. bindW (f a) g)"
  by (simp add: bindW_def split: option.splits sum.splits)

lemma encodeW3e_bytes: "encodeW3e w3e = Some (Inr (bytesW3E w3e))"
proof -
  from emits_encode [of "header w3e" "corners w3e", unfolded emits_def, rule_format, OF winv_new(1)]
  obtain s' where s': 
    "bindW (writeString32 (newBitStream None) (fileId (header w3e))) (\<lambda>s1.
      bindW (writeUInt32 s1 (version (header w3e))) (\<lambda>s2.
      bindW (writeString8 s2 (baseTileset (header w3e))) (\<lambda>s3.
      bindW (writeUInt32 s3 (hasCustomTileset (header w3e))) (\<lambda>s4.
      bindW (writeUInt32 s4 (tilePaletteCount (header w3e))) (\<lambda>s5.
      bindW (writeString32Array s5 (tilePalette (header w3e))) (\<lambda>s6.
      bindW (writeUInt32 s6 (cliffTilePaletteCount (header w3e))) (\<lambda>s7.
      bindW (writeString32Array s7 (cliffTilePalette (header w3e))) (\<lambda>s8.
      bindW (writeUInt32 s8 (width (header w3e))) (\<lambda>s9.
      bindW (writeUInt32 s9 (height (header w3e))) (\<lambda>s10.
      bindW (writeFloat32 s10 (x_f32 (header w3e))) (\<lambda>s11.
      bindW (writeFloat32 s11 (y_f32 (header w3e))) (\<lambda>s12.
        writeCorners s12 (corners w3e))))))))))))) = Some (Inr s')"
    "winv s'" "written s' = header_bytes (header w3e) @ concat (map corner_bytes (corners w3e))"
    unfolding winv_new(2) by auto
  have "encodeW3e w3e = bindW (Some (Inr s')) (\<lambda>s13. Some (getBuffer s13))"
    unfolding encodeW3e_def Let_def s'(1) [symmetric] bindW_assoc ..
  then show ?thesis using s'(2,3) by (simp add: getBuffer_written bytesW3E_def)
qed

subsection \<open>Reading back what was written\<close>

lemma le_int_u16: "le_int (u16_bytes v) = take_bit 16 v"
  unfolding u16_bytes_def
  by (rule bit_eqI) (auto simp add: bit_simps)

lemma byte_cases:
  obtains "n < 8" | "8 \<le> n" "n < 16" | "16 \<le> n" "n < 24" | "24 \<le> n" "n < 32" | "32 \<le> (n::nat)"
  by linarith

lemma le_int_u32: "le_int (u32_bytes v) = take_bit 32 v"
  unfolding u32_bytes_def
proof (rule bit_eqI)
  fix n :: nat
  show "bit (le_int [word_of_int v, word_of_int (drop_bit 8 v), word_of_int (drop_bit 16 v),
                     word_of_int (drop_bit 24 v)]) n = bit (take_bit 32 v) n"
    by (cases n rule: byte_cases) (auto simp add: bit_simps)
qed

lemma pad_append: "length xs = n \<Longrightarrow> pad n (xs @ r) = xs"
  by (simp add: pad_def)

lemma length_bytes [simp]:
  "length (u16_bytes v) = 2" "length (u32_bytes v) = 4" "length (str8_bytes t) = 1"
  "length (str32_bytes t) = 4" "length (setFloat32 w) = 4" "length (corner_bytes c) = 7"
  by (simp_all add: u16_bytes_def u32_bytes_def str8_bytes_def str32_bytes_def setFloat32_def
      corner_bytes_def)

lemma p_u32_bytes: "p_u32 (u32_bytes v @ r) = (take_bit 32 v, r)"
  by (simp add: p_u32_def pad_append le_int_u32)

lemma p_u16_bytes: "p_u16 (u16_bytes v @ r) = (take_bit 16 v, r)"
  by (simp add: p_u16_def pad_append le_int_u16)

lemma char_byte: "char_of (uint (word_of_int (of_char c) :: 8 word)) = c"
proof -
  have "take_bit 8 (of_char c :: int) = of_char c"
    by (rule take_bit_int_eq_self) (simp_all add: of_char_def [abs_def])
  then show ?thesis by (simp add: uint_word_of_int_eq)
qed

lemma getFloat32_setFloat32: "getFloat32 (setFloat32 w) = w"
  unfolding getFloat32_def setFloat32_def
proof (rule bit_word_eqI)
  fix n :: nat
  assume "n < LENGTH(32)"
  then show "bit (ucast ([ucast w, ucast (drop_bit 8 w), ucast (drop_bit 16 w), ucast (drop_bit 24 w) :: 8 word] ! 0) OR
          push_bit 8 (ucast ([ucast w, ucast (drop_bit 8 w), ucast (drop_bit 16 w), ucast (drop_bit 24 w) :: 8 word] ! 1)) OR
          push_bit 16 (ucast ([ucast w, ucast (drop_bit 8 w), ucast (drop_bit 16 w), ucast (drop_bit 24 w) :: 8 word] ! 2)) OR
          push_bit 24 (ucast ([ucast w, ucast (drop_bit 8 w), ucast (drop_bit 16 w), ucast (drop_bit 24 w) :: 8 word] ! 3)) :: 32 word) n
       = bit w n"
    by (cases n rule: byte_cases) (auto simp add: bit_simps)
qed

lemma p_f32_bytes: "p_f32 (setFloat32 w @ r) = (w, r)"
  by (simp add: p_f32_def pad_append getFloat32_setFloat32)

lemma p_str8_bytes: "p_str8 (str8_bytes t @ r) = ([char_of (charCodeAt0 t)], r)"
  by (simp add: p_str8_def str8_bytes_def cur_def uint_word_of_int_eq take_bit_eq_mod)

lemma p_str8_bytes_1: "length t = 1 \<Longrightarrow> p_str8 (str8_bytes t @ r) = (t, r)"
  by (cases t) (simp_all add: p_str8_def str8_bytes_def cur_def charCodeAt0_def char_byte)

lemma p_str32_bytes: "length t = 4 \<Longrightarrow> p_str32 (str32_bytes t @ r) = (t, r)"
proof -
  assume "length t = 4"
  then obtain a b c d where t: "t = [a, b, c, d]"
    by (auto simp add: length_Suc_conv eval_nat_numeral)
  show ?thesis
    unfolding t p_str32_def
    by (simp add: pad_append)
       (simp add: str32_bytes_def str8_bytes_def charAtOrNul_def charCodeAt0_def char_byte)
qed

lemma p_tags_bytes:
  "list_all (\<lambda>t. length t = 4) ts \<Longrightarrow> p_tags (length ts) (tags_bytes ts @ r) = (ts, r)"
  by (induction ts) (simp_all add: tags_bytes_def p_str32_bytes)

subsection \<open>The bitfields of a corner\<close>

lemma bit_mask_numerals:
  "bit (15 :: int) n \<longleftrightarrow> n < 4"
  "bit (31 :: int) n \<longleftrightarrow> n < 5"
  "bit (16383 :: int) n \<longleftrightarrow> n < 14"
proof -
  have "(15 :: int) = mask 4" "(31 :: int) = mask 5" "(16383 :: int) = mask 14"
    by (simp_all add: mask_eq_exp_minus_1)
  then show "bit (15 :: int) n \<longleftrightarrow> n < 4" "bit (31 :: int) n \<longleftrightarrow> n < 5"
    "bit (16383 :: int) n \<longleftrightarrow> n < 14"
    by (simp_all only: bit_mask_iff) simp_all
qed

lemma bit_field_numerals:
  "bit (16 :: int) n \<longleftrightarrow> n = 4"
  "bit (32 :: int) n \<longleftrightarrow> n = 5"
  "bit (64 :: int) n \<longleftrightarrow> n = 6"
  "bit (128 :: int) n \<longleftrightarrow> n = 7"
  using bit_exp_iff [where ?'a = int, of 4 n] bit_exp_iff [where ?'a = int, of 5 n]
    bit_exp_iff [where ?'a = int, of 6 n] bit_exp_iff [where ?'a = int, of 7 n]
  by simp_all

lemma bit_range_numerals:
  "bit (224 :: int) n \<longleftrightarrow> 5 \<le> n \<and> n < 8"
  "bit (240 :: int) n \<longleftrightarrow> 4 \<le> n \<and> n < 8"
  "bit (49152 :: int) n \<longleftrightarrow> 14 \<le> n \<and> n < 16"
proof -
  have e: "(224 :: int) = push_bit 5 (mask 3)" "(240 :: int) = push_bit 4 (mask 4)"
    "(49152 :: int) = push_bit 14 (mask 2)"
    by (simp_all add: mask_eq_exp_minus_1 push_bit_eq_mult)
  show "bit (224 :: int) n \<longleftrightarrow> 5 \<le> n \<and> n < 8"
    by (simp only: e bit_push_bit_iff bit_mask_iff) auto
  show "bit (240 :: int) n \<longleftrightarrow> 4 \<le> n \<and> n < 8"
    by (simp only: e bit_push_bit_iff bit_mask_iff) auto
  show "bit (49152 :: int) n \<longleftrightarrow> 14 \<le> n \<and> n < 16"
    by (simp only: e bit_push_bit_iff bit_mask_iff) auto
qed

lemma bit_js_and: "bit (js_and a b) n \<longleftrightarrow> bit a (min 31 n) \<and> bit b (min 31 n)"
  by (simp add: js_and_def bit_toInt32 bit_simps)

lemma bit_js_or: "bit (js_or a b) n \<longleftrightarrow> bit a (min 31 n) \<or> bit b (min 31 n)"
  by (simp add: js_or_def bit_toInt32 bit_simps)

lemma bit_js_sar: "bit (js_sar a k) n \<longleftrightarrow> bit a (min 31 (shiftCount k + n))"
  by (simp add: js_sar_def bit_toInt32 bit_simps)

lemma bit_js_shr: "bit (js_shr a k) n \<longleftrightarrow> shiftCount k + n < 32 \<and> bit a (shiftCount k + n)"
  by (simp add: js_shr_def toUint32_def bit_simps)

lemma bit_js_shl:
  "bit (js_shl a k) n \<longleftrightarrow> shiftCount k \<le> min 31 n \<and> bit a (min 31 n - shiftCount k)"
proof -
  have "min 31 (min 31 n - shiftCount k) = min 31 n - shiftCount k" by simp
  then show ?thesis by (simp add: js_shl_def bit_toInt32 bit_simps)
qed

lemmas bit_js = bit_js_and bit_js_or bit_js_sar bit_js_shr bit_js_shl bit_mask_numerals
  bit_field_numerals bit_range_numerals

lemma unpack_low:
  "js_and a 15 = take_bit 4 a" "js_and a 31 = take_bit 5 a" "js_and a 16383 = take_bit 14 a"
proof -
  show "js_and a 15 = take_bit 4 a"
    by (rule bit_eqI) (auto simp add: bit_js bit_simps min_def)
  show "js_and a 31 = take_bit 5 a"
    by (rule bit_eqI) (auto simp add: bit_js bit_simps min_def)
  show "js_and a 16383 = take_bit 14 a"
    by (rule bit_eqI) (auto simp add: bit_js bit_simps min_def)
qed

lemma unpack_bit:
  fixes k :: nat
  assumes k: "k < 31" and m: "\<And>j. bit m j \<longleftrightarrow> j = k" and sh: "shiftCount s = k"
  shows "js_sar (js_and a m) s = of_bool (bit a k)"
proof (rule bit_eqI)
  fix n
  show "bit (js_sar (js_and a m) s) n = bit (of_bool (bit a k) :: int) n"
  proof (cases "n = 0")
    case True
    then show ?thesis using k by (simp add: bit_js_sar bit_js_and sh m bit_simps)
  next
    case False
    then have "min 31 (k + n) \<noteq> k" using k by simp
    then show ?thesis using False by (simp add: bit_js_sar bit_js_and sh m bit_simps)
  qed
qed

lemma unpack_flag:
  "js_sar (js_and a 16) 4 = of_bool (bit a 4)"
  "js_sar (js_and a 32) 5 = of_bool (bit a 5)"
  "js_sar (js_and a 64) 6 = of_bool (bit a 6)"
  "js_sar (js_and a 128) 7 = of_bool (bit a 7)"
  by (rule unpack_bit; simp add: bit_field_numerals)+

lemma unpack_high:
  "js_sar (js_and a 224) 5 = take_bit 3 (drop_bit 5 a)"
  "js_sar (js_and a 240) 4 = take_bit 4 (drop_bit 4 a)"
  "js_shr (js_and a 49152) 14 = take_bit 2 (drop_bit 14 a)"
proof -
  show "js_sar (js_and a 224) 5 = take_bit 3 (drop_bit 5 a)"
    by (rule bit_eqI) (auto simp add: bit_js bit_simps min_def)
  show "js_sar (js_and a 240) 4 = take_bit 4 (drop_bit 4 a)"
    by (rule bit_eqI) (auto simp add: bit_js bit_simps min_def)
  show "js_shr (js_and a 49152) 14 = take_bit 2 (drop_bit 14 a)"
    by (rule bit_eqI) (auto simp add: bit_js bit_simps min_def)
qed

lemma mkCorner_unpacked:
  "mkCorner w i g ww b4 b5 b6 =
     \<lparr>index = i, rowid = i div w, colid = js_rem i w,
      groundHeight = (of_int g - 8192) / 4,
      waterHeight = (of_int (take_bit 14 ww) - 8192) / 4,
      mapEdge = take_bit 2 (drop_bit 14 ww),
      ramp = of_bool (bit b4 4),
      blight = of_bool (bit b4 6),
      water = of_bool (bit b4 5),
      boundary = of_bool (bit b4 7),
      groundTexture = take_bit 4 b4,
      groundVariation = take_bit 5 b5,
      cliffVariation = take_bit 3 (drop_bit 5 b5),
      cliffTexture = take_bit 4 b6,
      layerHeight = take_bit 4 (drop_bit 4 b6)\<rparr>"
  by (simp add: mkCorner_def unpack_low unpack_flag unpack_high)

lemma bit_flagsByte:
  "n < 8 \<Longrightarrow> bit (flagsByte c) n \<longleftrightarrow>
     (n < 4 \<and> bit (groundTexture c) n) \<or> (4 \<le> n \<and> bit (ramp c) (n - 4)) \<or>
     (5 \<le> n \<and> bit (water c) (n - 5)) \<or> (6 \<le> n \<and> bit (blight c) (n - 6)) \<or>
     (7 \<le> n \<and> bit (boundary c) (n - 7))"
  by (auto simp add: flagsByte_def bit_js)

lemma bit_variationByte:
  "n < 8 \<Longrightarrow> bit (variationByte c) n \<longleftrightarrow>
     (n < 5 \<and> bit (groundVariation c) n) \<or> (5 \<le> n \<and> bit (cliffVariation c) (n - 5))"
  by (auto simp add: variationByte_def bit_js)

lemma bit_cliffByte:
  "n < 8 \<Longrightarrow> bit (cliffByte c) n \<longleftrightarrow>
     (n < 4 \<and> bit (cliffTexture c) n) \<or> (4 \<le> n \<and> bit (layerHeight c) (n - 4))"
  by (auto simp add: cliffByte_def bit_js)

lemma bit_waterWord:
  "n < 16 \<Longrightarrow> bit (waterWord c) n \<longleftrightarrow>
     (n < 14 \<and> bit (heightRaw (waterHeight c)) n) \<or> (14 \<le> n \<and> bit (mapEdge c) (n - 14))"
  by (auto simp add: waterWord_def bit_js)

lemma flags_fields:
  "take_bit 4 (take_bit 8 (flagsByte c)) = take_bit 4 (groundTexture c)"
  "bit (take_bit 8 (flagsByte c)) 4 \<longleftrightarrow> bit (ramp c) 0"
  "bit (take_bit 8 (flagsByte c)) 5 \<longleftrightarrow> bit (water c) 0 \<or> bit (ramp c) 1"
  "bit (take_bit 8 (flagsByte c)) 6 \<longleftrightarrow> bit (blight c) 0 \<or> bit (water c) 1 \<or> bit (ramp c) 2"
  "bit (take_bit 8 (flagsByte c)) 7 \<longleftrightarrow>
     bit (boundary c) 0 \<or> bit (blight c) 1 \<or> bit (water c) 2 \<or> bit (ramp c) 3"
proof -
  show "take_bit 4 (take_bit 8 (flagsByte c)) = take_bit 4 (groundTexture c)"
    by (rule bit_eqI) (auto simp add: bit_simps bit_flagsByte)
qed (auto simp add: bit_simps bit_flagsByte)

lemma variation_fields:
  "take_bit 5 (take_bit 8 (variationByte c)) = take_bit 5 (groundVariation c)"
  "take_bit 3 (drop_bit 5 (take_bit 8 (variationByte c))) = take_bit 3 (cliffVariation c)"
proof -
  show "take_bit 5 (take_bit 8 (variationByte c)) = take_bit 5 (groundVariation c)"
    by (rule bit_eqI) (auto simp add: bit_simps bit_variationByte)
  show "take_bit 3 (drop_bit 5 (take_bit 8 (variationByte c))) = take_bit 3 (cliffVariation c)"
    by (rule bit_eqI) (auto simp add: bit_simps bit_variationByte)
qed

lemma cliff_fields:
  "take_bit 4 (take_bit 8 (cliffByte c)) = take_bit 4 (cliffTexture c)"
  "take_bit 4 (drop_bit 4 (take_bit 8 (cliffByte c))) = take_bit 4 (layerHeight c)"
proof -
  show "take_bit 4 (take_bit 8 (cliffByte c)) = take_bit 4 (cliffTexture c)"
    by (rule bit_eqI) (auto simp add: bit_simps bit_cliffByte)
  show "take_bit 4 (drop_bit 4 (take_bit 8 (cliffByte c))) = take_bit 4 (layerHeight c)"
    by (rule bit_eqI) (auto simp add: bit_simps bit_cliffByte)
qed

lemma water_fields:
  "take_bit 14 (take_bit 16 (waterWord c)) = take_bit 14 (heightRaw (waterHeight c))"
  "take_bit 2 (drop_bit 14 (take_bit 16 (waterWord c))) = take_bit 2 (mapEdge c)"
proof -
  show "take_bit 14 (take_bit 16 (waterWord c)) = take_bit 14 (heightRaw (waterHeight c))"
    by (rule bit_eqI) (auto simp add: bit_simps bit_waterWord)
  show "take_bit 2 (drop_bit 14 (take_bit 16 (waterWord c))) = take_bit 2 (mapEdge c)"
    by (rule bit_eqI) (auto simp add: bit_simps bit_waterWord)
qed

lemma mkCorner_repack:
  "mkCorner w i (take_bit 16 (heightRaw (groundHeight c))) (take_bit 16 (waterWord c))
     (take_bit 8 (flagsByte c)) (take_bit 8 (variationByte c)) (take_bit 8 (cliffByte c))
   = repack w i c"
  unfolding mkCorner_unpacked repack_def
  by (simp only: flags_fields variation_fields cliff_fields water_fields)

lemma p_corner_bytes: "p_corner w i (corner_bytes c @ r) = (repack w i c, r)"
proof -
  have "p_corner w i (corner_bytes c @ r) =
      (mkCorner w i (take_bit 16 (heightRaw (groundHeight c))) (take_bit 16 (waterWord c))
     (take_bit 8 (flagsByte c)) (take_bit 8 (variationByte c)) (take_bit 8 (cliffByte c)), r)"
    by (simp add: p_corner_def corner_bytes_def pad_append le_int_u16 cur_def
        uint_word_of_int_eq)
  then show ?thesis by (simp only: mkCorner_repack)
qed

lemma p_corners_bytes:
  "p_corners (length cs) w i (concat (map corner_bytes cs) @ r) = (repackAll w i cs, r)"
  by (induction cs arbitrary: i) (simp_all add: p_corner_bytes)

lemma take_bit_u32: "u32 v \<Longrightarrow> take_bit 32 v = v"
  by (simp add: u32_def take_bit_int_eq_self)

lemma parse_bytes:
  assumes "wf_header (header d)"
    and "length (corners d) = nat (width (header d) * height (header d))"
  shows "parseW3E (bytesW3E d) =
           \<lparr>header = header d, corners = repackAll (width (header d)) 0 (corners d)\<rparr>"
proof -
  have cs: "p_corners (nat (width (header d) * height (header d))) (width (header d)) 0
              (concat (map corner_bytes (corners d))) =
            (repackAll (width (header d)) 0 (corners d), [])"
    using p_corners_bytes [of "corners d" "width (header d)" 0 "[]"] assms(2) by simp
  let ?h = "header d"
  have h: "length (fileId ?h) = 4" "length (baseTileset ?h) = 1"
    "take_bit 32 (version ?h) = version ?h"
    "take_bit 32 (hasCustomTileset ?h) = hasCustomTileset ?h"
    "take_bit 32 (tilePaletteCount ?h) = tilePaletteCount ?h"
    "take_bit 32 (cliffTilePaletteCount ?h) = cliffTilePaletteCount ?h"
    "take_bit 32 (width ?h) = width ?h" "take_bit 32 (height ?h) = height ?h"
    "list_all (\<lambda>t. length t = 4) (tilePalette ?h)"
    "list_all (\<lambda>t. length t = 4) (cliffTilePalette ?h)"
    "nat (tilePaletteCount ?h) = length (tilePalette ?h)"
    "nat (cliffTilePaletteCount ?h) = length (cliffTilePalette ?h)"
    using assms(1) unfolding wf_header_def by (auto simp add: take_bit_u32)
  show ?thesis
    unfolding parseW3E_def bytesW3E_def header_bytes_def
    by (simp add: p_str32_bytes p_u32_bytes p_str8_bytes_1 p_tags_bytes p_f32_bytes h cs)
qed

subsection \<open>Rounding to a double\<close>

lemma pow2_step: "(2 :: rat) powi (e + 1) = 2 * 2 powi e"
  by (simp add: power_int_add)

lemma expo_bounds:
  assumes "x \<noteq> 0"
  shows "2 powi expo x \<le> \<bar>x\<bar>" "\<bar>x\<bar> < 2 powi (expo x + 1)"
proof -
  have "2 powi expo x \<le> \<bar>x\<bar> \<and> \<bar>x\<bar> < 2 powi (expo x + 1)"
  proof (cases "1 \<le> \<bar>x\<bar>")
    case True
    define m where "m = \<lfloor>\<bar>x\<bar>\<rfloor>"
    have m: "0 < m" using True by (simp add: m_def)
    have b: "1 \<le> bitlen m" using m bitlen_eq_zero_iff [of m] bitlen_nonneg [of m] by linarith
    have e: "expo x = bitlen m - 1" using True by (simp add: expo_def m_def)
    from bitlen_bounds [OF m]
    have lo: "2 ^ nat (bitlen m - 1) \<le> m" and hi: "m < 2 ^ nat (bitlen m)" by simp_all
    have "(2 :: rat) powi (bitlen m - 1) = of_int (2 ^ nat (bitlen m - 1))"
      using b by (simp add: power_int_nonneg_exp)
    also have "\<dots> \<le> of_int m" using lo by (simp only: of_int_le_iff)
    also have "\<dots> \<le> \<bar>x\<bar>" by (simp add: m_def)
    finally have 1: "2 powi expo x \<le> \<bar>x\<bar>" by (simp add: e)
    have "m + 1 \<le> 2 ^ nat (bitlen m)" using hi by simp
    then have "(of_int (m + 1) :: rat) \<le> of_int (2 ^ nat (bitlen m))"
      by (simp only: of_int_le_iff)
    moreover have "\<bar>x\<bar> < of_int (m + 1)"
      using floor_correct [of "\<bar>x\<bar>"] by (simp add: m_def)
    moreover have "(2 :: rat) powi (bitlen m) = of_int (2 ^ nat (bitlen m))"
      using b by (simp add: power_int_nonneg_exp)
    ultimately have "\<bar>x\<bar> < 2 powi (expo x + 1)" by (simp add: e)
    with 1 show ?thesis by simp
  next
    case False
    define r where "r = 1 / \<bar>x\<bar>"
    define m where "m = \<lceil>r\<rceil> - 1"
    have x: "0 < \<bar>x\<bar>" "\<bar>x\<bar> < 1" using assms False by simp_all
    have r: "1 < r" using x by (simp add: r_def)
    have xr: "\<bar>x\<bar> = 1 / r" by (simp add: r_def)
    have m: "0 < m" using r by (simp add: m_def less_ceiling_iff)
    have mr: "of_int m < r" "r \<le> of_int m + 1"
      unfolding m_def by (simp_all add: ceiling_correct)
    have b: "1 \<le> bitlen m" using m bitlen_eq_zero_iff [of m] bitlen_nonneg [of m] by linarith
    have e: "expo x = - bitlen m" using False by (simp add: expo_def m_def r_def)
    from bitlen_bounds [OF m]
    have lo: "2 ^ nat (bitlen m - 1) \<le> m" and hi: "m < 2 ^ nat (bitlen m)" by simp_all
    have p1: "(2 :: rat) powi (bitlen m - 1) = of_int (2 ^ nat (bitlen m - 1))"
      using b by (simp add: power_int_nonneg_exp)
    have p2: "(2 :: rat) powi (bitlen m) = of_int (2 ^ nat (bitlen m))"
      using b by (simp add: power_int_nonneg_exp)
    have "(of_int (2 ^ nat (bitlen m - 1)) :: rat) \<le> of_int m"
      using lo by (simp only: of_int_le_iff)
    then have a: "2 powi (bitlen m - 1) < r" using mr(1) by (simp only: p1)
    have "m + 1 \<le> 2 ^ nat (bitlen m)" using hi by simp
    then have "(of_int (m + 1) :: rat) \<le> of_int (2 ^ nat (bitlen m))"
      by (simp only: of_int_le_iff)
    then have c: "r \<le> 2 powi (bitlen m)" using mr(2) by (simp add: p2)
    have pos: "(0 :: rat) < 2 powi (bitlen m)" "(0 :: rat) < 2 powi (bitlen m - 1)" by simp_all
    have "2 powi (- bitlen m) \<le> 1 / r"
      using c r pos by (simp add: power_int_minus_divide frac_le)
    moreover have "1 / r < 2 powi (- (bitlen m - 1))"
      using a r pos unfolding power_int_minus_divide by (intro divide_strict_left_mono) simp_all
    moreover have "- (bitlen m - 1) = expo x + 1" by (simp add: e)
    ultimately show ?thesis by (simp add: e xr)
  qed
  then show "2 powi expo x \<le> \<bar>x\<bar>" "\<bar>x\<bar> < 2 powi (expo x + 1)" by simp_all
qed

lemma pow2_less_cancel: "(2 :: rat) powi a < 2 powi b \<Longrightarrow> a < b"
  using power_int_increasing [of b a "2 :: rat"] by (cases "a < b") simp_all

lemma expo_eqI:
  assumes "2 powi e \<le> \<bar>x\<bar>" "\<bar>x\<bar> < 2 powi (e + 1)"
  shows "expo x = e"
proof -
  have "(0 :: rat) < 2 powi e" by simp
  with assms(1) have "0 < \<bar>x\<bar>" by linarith
  then have x: "x \<noteq> 0" by simp
  note b = expo_bounds [OF x]
  have "(2 :: rat) powi e < 2 powi (expo x + 1)" using assms(1) b(2) by simp
  then have 1: "e < expo x + 1" by (rule pow2_less_cancel)
  have "(2 :: rat) powi expo x < 2 powi (e + 1)" using assms(2) b(1) by simp
  then have 2: "expo x < e + 1" by (rule pow2_less_cancel)
  from 1 2 show ?thesis by simp
qed

lemma roundHalfEven_near: "\<bar>of_int (roundHalfEven y) - y\<bar> \<le> 1 / 2"
proof -
  have "of_int \<lfloor>y\<rfloor> \<le> y" "y < of_int \<lfloor>y\<rfloor> + 1" by linarith+
  then show ?thesis by (auto simp add: roundHalfEven_def Let_def)
qed

lemma roundHalfEven_eqI:
  assumes "\<bar>of_int n - y\<bar> < 1 / 2"
  shows "roundHalfEven y = n"
proof -
  have "\<bar>of_int (roundHalfEven y) - y\<bar> \<le> 1 / 2" by (rule roundHalfEven_near)
  with assms have "\<bar>(of_int (roundHalfEven y) :: rat) - of_int n\<bar> < 1" by linarith
  then have "\<bar>(of_int (roundHalfEven y - n) :: rat)\<bar> < 1" by simp
  then have "\<bar>roundHalfEven y - n\<bar> < 1" by (simp only: of_int_abs [symmetric] of_int_less_1_iff)
  then show ?thesis by simp
qed

lemma roundHalfEven_of_int [simp]: "roundHalfEven (of_int n) = n"
  by (rule roundHalfEven_eqI) simp

lemma roundHalfEven_ge:
  assumes "of_int a \<le> y"
  shows "a \<le> roundHalfEven y"
proof -
  have "a \<le> \<lfloor>y\<rfloor>" using assms by (simp add: le_floor_iff)
  then show ?thesis by (auto simp add: roundHalfEven_def Let_def)
qed

lemma roundHalfEven_le:
  assumes "y \<le> of_int b"
  shows "roundHalfEven y \<le> b"
proof (cases "y = of_int b")
  case True
  then show ?thesis by simp
next
  case False
  then have "y < of_int b" using assms by simp
  then have "\<lfloor>y\<rfloor> < b" by (simp add: floor_less_iff)
  then show ?thesis by (auto simp add: roundHalfEven_def Let_def)
qed

lemma pow2_neg: "(2 :: rat) powi (- int k) = 1 / 2 ^ k"
  by (simp add: power_int_minus_divide)

lemma dbl_near:
  assumes "\<bar>x\<bar> < 2 ^ 16"
  shows "\<exists>y. dbl x = Some y \<and> \<bar>y - x\<bar> \<le> 1 / 2 ^ 38 \<and>
           (\<forall>a. of_int a \<le> x \<longrightarrow> of_int a \<le> y) \<and> (\<forall>b. x \<le> of_int b \<longrightarrow> y \<le> of_int b)"
proof (cases "x = 0")
  case True
  then show ?thesis by (simp add: dbl_def)
next
  case False
  define e where "e = max (expo x) (- 1022)"
  define k where "k = nat (52 - e)"
  define n where "n = roundHalfEven (x * 2 ^ k)"
  define y :: rat where "y = of_int n / 2 ^ k"
  have "(2 :: rat) powi expo x < 2 powi 16"
    using expo_bounds(1) [OF False] assms by simp
  then have "expo x < 16" by (rule pow2_less_cancel)
  then have e: "e < 16" by (simp add: e_def)
  then have k: "37 \<le> k" "e - 52 = - int k" by (simp_all add: k_def)
  have u: "(2 :: rat) powi (e - 52) = 1 / 2 ^ k" by (simp only: k(2) pow2_neg)
  have p: "(0 :: rat) < 2 ^ k" by simp
  have lo: "of_int a \<le> y" if "of_int a \<le> x" for a
  proof -
    have "(of_int (a * 2 ^ k) :: rat) \<le> x * 2 ^ k" using that by simp
    then have "a * 2 ^ k \<le> n" unfolding n_def by (rule roundHalfEven_ge)
    then have "(of_int (a * 2 ^ k) :: rat) \<le> of_int n" by (simp only: of_int_le_iff)
    then show ?thesis using p by (simp add: y_def pos_le_divide_eq)
  qed
  have hi: "y \<le> of_int b" if "x \<le> of_int b" for b
  proof -
    have "x * 2 ^ k \<le> (of_int (b * 2 ^ k) :: rat)" using that by simp
    then have "n \<le> b * 2 ^ k" unfolding n_def by (rule roundHalfEven_le)
    then have "(of_int n :: rat) \<le> of_int (b * 2 ^ k)" by (simp only: of_int_le_iff)
    then show ?thesis using p by (simp add: y_def pos_divide_le_eq)
  qed
  have "y - x = (of_int n - x * 2 ^ k) / 2 ^ k" by (simp add: y_def diff_divide_distrib)
  then have "\<bar>y - x\<bar> = \<bar>of_int n - x * 2 ^ k\<bar> / 2 ^ k" by (simp add: abs_divide)
  also have "\<dots> \<le> (1 / 2) / 2 ^ k"
    unfolding n_def by (intro divide_right_mono roundHalfEven_near) simp
  also have "\<dots> = 1 / 2 ^ Suc k" by simp
  also have "\<dots> \<le> 1 / 2 ^ 38"
    using k(1) by (intro divide_left_mono power_increasing) simp_all
  finally have near: "\<bar>y - x\<bar> \<le> 1 / 2 ^ 38" .
  have "of_int (- (2 ^ 16)) \<le> x" "x \<le> of_int (2 ^ 16)" using assms by simp_all
  then have "of_int (- (2 ^ 16)) \<le> y" "y \<le> of_int (2 ^ 16)" by (simp_all only: lo hi)
  then have "\<bar>y\<bar> \<le> 2 ^ 16" by simp
  also have "(2 :: rat) ^ 16 < 2 ^ 1024" by (intro power_strict_increasing) simp_all
  finally have fin: "\<not> 2 ^ 1024 \<le> \<bar>y\<bar>" by simp
  have "of_int (roundHalfEven (x / 2 powi (e - 52))) * 2 powi (e - 52) = y"
    by (simp add: u y_def n_def)
  then have "dbl x = Some y"
    using False fin unfolding dbl_def e_def [symmetric] by (simp only: Let_def if_False)
  with near lo hi show ?thesis by blast
qed

lemma dbl_of_int:
  assumes "\<bar>n\<bar> < 2 ^ 16"
  shows "dbl (of_int n) = Some (of_int n)"
proof -
  have "\<bar>of_int n :: rat\<bar> < of_int (2 ^ 16)" using assms by (simp only: of_int_abs [symmetric] of_int_less_iff)
  then have "\<bar>of_int n :: rat\<bar> < 2 ^ 16" by simp
  from dbl_near [OF this] obtain y where y: "dbl (of_int n) = Some y"
    "of_int n \<le> y" "y \<le> of_int n" by blast
  then show ?thesis by simp
qed

lemma dbl_eqI:
  assumes "2 powi e \<le> \<bar>x\<bar>" "\<bar>x\<bar> < 2 powi (e + 1)" "- 1022 \<le> e" "e < 1023"
    and "\<bar>of_int n - x * 2 powi (52 - e)\<bar> < 1 / 2"
  shows "dbl x = Some (of_int n * 2 powi (e - 52))"
proof -
  have "(0 :: rat) < 2 powi e" by simp
  with assms(1) have "0 < \<bar>x\<bar>" by linarith
  then have x: "x \<noteq> 0" by simp
  have ex: "max (expo x) (- 1022) = e" using expo_eqI [OF assms(1,2)] assms(3) by simp
  have inv: "x / 2 powi (e - 52) = x * 2 powi (52 - e)"
    using power_int_minus_divide [of "2 :: rat" "e - 52"] by simp
  have n: "roundHalfEven (x / 2 powi (e - 52)) = n"
    unfolding inv using assms(5) by (rule roundHalfEven_eqI)
  have "\<bar>of_int n\<bar> \<le> \<bar>of_int n - x * 2 powi (52 - e)\<bar> + \<bar>x * 2 powi (52 - e)\<bar>" by simp
  also have "\<dots> < 1 / 2 + \<bar>x\<bar> * 2 powi (52 - e)" using assms(5) by (simp add: abs_mult)
  also have "\<dots> \<le> 1 / 2 + 2 powi (e + 1) * 2 powi (52 - e)"
    using assms(2) by (simp add: mult_right_mono del: pow2_step)
  also have "\<dots> = 1 / 2 + 2 ^ 53" by (simp flip: power_int_add)
  finally have "\<bar>of_int n :: rat\<bar> < of_int (2 ^ 53 + 1)" by simp
  then have "\<bar>n\<bar> < 2 ^ 53 + 1" by (simp only: of_int_abs [symmetric] of_int_less_iff)
  then have "\<bar>n\<bar> \<le> 2 ^ 53" by simp
  then have "\<bar>of_int n :: rat\<bar> \<le> of_int (2 ^ 53)" by (simp only: of_int_abs [symmetric] of_int_le_iff)
  then have "\<bar>of_int n * 2 powi (e - 52) :: rat\<bar> \<le> 2 ^ 53 * 2 powi (e - 52)"
    by (simp add: abs_mult mult_right_mono)
  also have "\<dots> = 2 powi (e + 1)"
    using power_int_add [of "2 :: rat" 53 "e - 52"] by (simp add: add.commute)
  also have "\<dots> < 2 powi 1024" using assms(4) by (intro power_int_strict_increasing) simp_all
  finally have fin: "\<not> 2 ^ 1024 \<le> \<bar>of_int n * 2 powi (e - 52) :: rat\<bar>" by simp
  show ?thesis using x fin unfolding dbl_def ex by (simp only: Let_def if_False n)
qed

lemma heightRaw_approx:
  assumes "0 \<le> h * 4 + 8192" "h * 4 + 8192 \<le> of_int N" "N \<le> 65535"
  shows "\<exists>y. heightRaw h = round y \<and> \<bar>y - (h * 4 + 8192)\<bar> \<le> 1 / 2 ^ 37 \<and>
           0 \<le> y \<and> y \<le> of_int N"
proof -
  have "(of_int N :: rat) \<le> of_int 65535" using assms(3) by (simp only: of_int_le_iff)
  then have N: "(of_int N :: rat) \<le> 65535" by simp
  have "\<bar>h * 4\<bar> < 2 ^ 16" using assms(1,2) N by (simp add: abs_less_iff)
  from dbl_near [OF this] obtain p where p: "dbl (h * 4) = Some p"
    "\<bar>p - h * 4\<bar> \<le> 1 / 2 ^ 38" "\<And>a. of_int a \<le> h * 4 \<Longrightarrow> of_int a \<le> p"
    "\<And>b. h * 4 \<le> of_int b \<Longrightarrow> p \<le> of_int b" by blast
  have "of_int (- 8192) \<le> h * 4" "h * 4 \<le> of_int (N - 8192)" using assms(1,2) by simp_all
  then have "of_int (- 8192) \<le> p" "p \<le> of_int (N - 8192)" by (simp_all only: p(3) p(4))
  then have q: "0 \<le> p + 8192" "p + 8192 \<le> of_int N" by simp_all
  then have "\<bar>p + 8192\<bar> < 2 ^ 16" using N by (simp add: abs_less_iff)
  from dbl_near [OF this] obtain y where y: "dbl (p + 8192) = Some y"
    "\<bar>y - (p + 8192)\<bar> \<le> 1 / 2 ^ 38" "\<And>a. of_int a \<le> p + 8192 \<Longrightarrow> of_int a \<le> y"
    "\<And>b. p + 8192 \<le> of_int b \<Longrightarrow> y \<le> of_int b" by blast
  have r: "heightRaw h = round y" by (simp add: heightRaw_def p(1) y(1))
  have "of_int 0 \<le> p + 8192" using q(1) by simp
  then have "of_int 0 \<le> y" by (rule y(3))
  then have lo: "0 \<le> y" by simp
  have hi: "y \<le> of_int N" using q(2) by (rule y(4))
  have "\<bar>y - (h * 4 + 8192)\<bar> \<le> 1 / 2 ^ 38 + 1 / 2 ^ 38" using p(2) y(2) by linarith
  then have "\<bar>y - (h * 4 + 8192)\<bar> \<le> 1 / 2 ^ 37" by simp
  with r lo hi show ?thesis by blast
qed

lemma heightRaw_bounds:
  assumes "0 \<le> h * 4 + 8192" "h * 4 + 8192 \<le> of_int N" "N \<le> 65535"
  shows "0 \<le> heightRaw h" "heightRaw h \<le> N"
    and "\<bar>of_int (heightRaw h) - (h * 4 + 8192)\<bar> \<le> 1 / 2 + 1 / 2 ^ 37"
    and "\<bar>of_int (heightRaw h) - (h * 4 + 8192)\<bar> \<le> \<bar>of_int m - (h * 4 + 8192)\<bar> + 1 / 2 ^ 36"
proof -
  from heightRaw_approx [OF assms] obtain y where r: "heightRaw h = round y"
    and y: "\<bar>y - (h * 4 + 8192)\<bar> \<le> 1 / 2 ^ 37" "0 \<le> y" "y \<le> of_int N" by blast
  have "round (0 :: rat) \<le> round y" using y(2) by (rule round_mono)
  then show "0 \<le> heightRaw h" by (simp add: r)
  have "round y \<le> round (of_int N :: rat)" using y(3) by (rule round_mono)
  then show "heightRaw h \<le> N" by (simp only: r round_of_int)
  have "\<bar>of_int (round y) - y\<bar> \<le> 1 / 2" by (rule of_int_round_abs_le)
  then have "\<bar>of_int (round y) - (h * 4 + 8192)\<bar> \<le> 1 / 2 + 1 / 2 ^ 37"
    using y(1) by linarith
  then show "\<bar>of_int (heightRaw h) - (h * 4 + 8192)\<bar> \<le> 1 / 2 + 1 / 2 ^ 37"
    by (simp only: r)
  have "\<bar>of_int (round y) - y\<bar> \<le> \<bar>of_int m - y\<bar>"
    using round_diff_minimal [of y m] by (simp only: abs_minus_commute)
  then have "\<bar>of_int (round y) - (h * 4 + 8192)\<bar>
      \<le> \<bar>of_int m - (h * 4 + 8192)\<bar> + (1 / 2 ^ 37 + 1 / 2 ^ 37)"
    using y(1) by linarith
  then show "\<bar>of_int (heightRaw h) - (h * 4 + 8192)\<bar>
      \<le> \<bar>of_int m - (h * 4 + 8192)\<bar> + 1 / 2 ^ 36"
    by (simp add: r)
qed

lemma heightRaw_int:
  assumes "h * 4 = of_int n" "0 \<le> n + 8192" "n + 8192 \<le> 65535"
  shows "heightRaw h = n + 8192"
proof -
  have 1: "dbl (of_int n) = Some (of_int n)" using assms(2,3) by (intro dbl_of_int) simp
  have "dbl (of_int (n + 8192)) = Some (of_int (n + 8192))"
    using assms(2,3) by (intro dbl_of_int) simp
  then have 2: "dbl (of_int n + 8192) = Some (of_int (n + 8192))" by simp
  show ?thesis unfolding heightRaw_def assms(1) 1 option.case 2 by (simp only: round_of_int)
qed

lemma heightRaw_example: "heightRaw (1 / 8 - 1 / 2 ^ 56) = 8193"
proof -
  have 1: "dbl ((1 / 8 - 1 / 2 ^ 56) * 4) = Some (1 / 2 - 1 / 2 ^ 54)"
    using dbl_eqI [of "- 2" "(1 / 8 - 1 / 2 ^ 56) * 4" "2 ^ 53 - 1"] by simp
  have 2: "dbl (1 / 2 - 1 / 2 ^ 54 + 8192) = Some (16385 / 2)"
    using dbl_eqI [of 13 "1 / 2 - 1 / 2 ^ 54 + 8192" "2 ^ 52 + 2 ^ 38"] by simp
  have 3: "round (16385 / 2 :: rat) = 8193" by (simp add: round_def floor_unique)
  show ?thesis unfolding heightRaw_def 1 option.case 2 by (simp only: 3)
qed

lemma heightRaw_tenth: "heightRaw (1 / 10) = 8192"
proof -
  have 1: "dbl (1 / 10 * 4) = Some (7205759403792794 / 2 ^ 54)"
    using dbl_eqI [of "- 2" "1 / 10 * 4" 7205759403792794] by simp
  have 2: "dbl (7205759403792794 / 2 ^ 54 + 8192) = Some (4503819529696051 / 2 ^ 39)"
    using dbl_eqI [of 13 "7205759403792794 / 2 ^ 54 + 8192" 4503819529696051] by simp
  have 3: "round (4503819529696051 / 2 ^ 39 :: rat) = 8192" by (simp add: round_def floor_unique)
  show ?thesis unfolding heightRaw_def 1 option.case 2 by (simp only: 3)
qed

lemma heightRaw_eighth: "heightRaw (1 / 8) = 8193"
proof -
  have 1: "dbl (1 / 8 * 4) = Some (1 / 2)"
    using dbl_eqI [of "- 1" "1 / 8 * 4" "2 ^ 52"] by simp
  have 2: "dbl (1 / 2 + 8192) = Some (16385 / 2)"
    using dbl_eqI [of 13 "1 / 2 + 8192" "16385 * 2 ^ 38"] by simp
  have 3: "round (16385 / 2 :: rat) = 8193" by (simp add: round_def floor_unique)
  show ?thesis unfolding heightRaw_def 1 option.case 2 by (simp only: 3)
qed

lemma dbl_example: "dbl (1 / 8 - 1 / 2 ^ 56) = Some (1 / 8 - 1 / 2 ^ 56)"
  using dbl_eqI [of "- 4" "1 / 8 - 1 / 2 ^ 56" "2 ^ 53 - 1"] by simp

lemma heightRaw_values [simp]:
  "heightRaw 0 = 8192" "heightRaw (- 2048) = 0" "heightRaw (49 / 4) = 8241"
  "heightRaw (- 7 / 2) = 8178" "heightRaw (8191 / 4) = 16383"
  "heightRaw ((65535 - 8192) / 4) = 65535" "heightRaw ((16383 - 8192) / 4) = 16383"
  using heightRaw_int [of 0 0] heightRaw_int [of "- 2048" "- 8192"]
    heightRaw_int [of "49 / 4" 49] heightRaw_int [of "- 7 / 2" "- 14"]
    heightRaw_int [of "8191 / 4" 8191] heightRaw_int [of "(65535 - 8192) / 4" "65535 - 8192"]
    heightRaw_int [of "(16383 - 8192) / 4" "16383 - 8192"]
  by simp_all

subsection \<open>Encoding, then decoding\<close>

lemma roundTrip_parse: "roundTrip w3e = Some (Inr (parseW3E (bytesW3E w3e)))"
  by (simp add: roundTrip_def encodeW3e_bytes decodeW3e_parse)

lemma roundTrip_framed:
  "framed w3e \<Longrightarrow>
   roundTrip w3e =
     Some (Inr \<lparr>header = header w3e,
                corners = repackAll (width (header w3e)) 0 (corners w3e)\<rparr>)"
  by (simp add: roundTrip_parse framed_def parse_bytes)

lemma heightRaw_in_range:
  assumes "heightInRange bits h" "bits \<le> 16"
  shows "0 \<le> heightRaw h" "heightRaw h < 2 ^ bits"
proof -
  have "(2 :: int) ^ bits \<le> 2 ^ 16" using assms(2) by (intro power_increasing) simp_all
  then have n: "(2 :: int) ^ bits - 1 \<le> 65535" by simp
  have r: "0 \<le> h * 4 + 8192" "h * 4 + 8192 \<le> of_int (2 ^ bits - 1)"
    using assms(1) by (simp_all add: heightInRange_def)
  show "0 \<le> heightRaw h" using r n by (rule heightRaw_bounds(1))
  have "heightRaw h \<le> 2 ^ bits - 1" using r n by (rule heightRaw_bounds(2))
  then show "heightRaw h < 2 ^ bits" by simp
qed

lemma take_bit_heightRaw:
  "heightInRange bits h \<Longrightarrow> bits \<le> 16 \<Longrightarrow> take_bit bits (heightRaw h) = heightRaw h"
  using heightRaw_in_range [of bits h] by (simp add: take_bit_int_eq_self)

lemma heightRaw_quarter:
  assumes "quarterMultiple h" "heightInRange bits h" "bits \<le> 16"
  shows "heightRaw h = \<lfloor>h * 4\<rfloor> + 8192" "(of_int (heightRaw h) - 8192) / 4 = h"
proof -
  from assms(1) have e: "h * 4 = of_int \<lfloor>h * 4\<rfloor>"
    unfolding quarterMultiple_def by (rule sym)
  have "(2 :: int) ^ bits \<le> 2 ^ 16" using assms(3) by (intro power_increasing) simp_all
  then have n: "(2 :: int) ^ bits - 1 \<le> 65535" by simp
  have "(of_int 0 :: rat) \<le> of_int (\<lfloor>h * 4\<rfloor> + 8192)"
    "(of_int (\<lfloor>h * 4\<rfloor> + 8192) :: rat) \<le> of_int (2 ^ bits - 1)"
    using assms(2) e by (simp_all add: heightInRange_def)
  then have b: "0 \<le> \<lfloor>h * 4\<rfloor> + 8192" "\<lfloor>h * 4\<rfloor> + 8192 \<le> 2 ^ bits - 1"
    by (simp_all only: of_int_le_iff)
  from b(2) n have "\<lfloor>h * 4\<rfloor> + 8192 \<le> 65535" by (rule order_trans)
  with e b(1) show r: "heightRaw h = \<lfloor>h * 4\<rfloor> + 8192" by (rule heightRaw_int)
  have "(of_int (\<lfloor>h * 4\<rfloor> + 8192) - 8192) / 4 = h" using e by simp
  then show "(of_int (heightRaw h) - 8192) / 4 = h" by (simp only: r)
qed

lemma bitfield_take_bit: "bitfield n v \<Longrightarrow> take_bit n v = v"
  by (simp add: bitfield_def take_bit_int_eq_self)

lemma bitfield_flag:
  assumes "bitfield 1 v"
  shows "of_bool (bit v 0) = v" "\<not> bit v (Suc k)"
proof -
  have "v = 0 \<or> v = 1" using assms by (auto simp add: bitfield_def)
  then show "of_bool (bit v 0) = v" "\<not> bit v (Suc k)" by (auto simp add: bit_Suc)
qed

lemma js_rem_mod: "0 \<le> a \<Longrightarrow> 0 < b \<Longrightarrow> js_rem a b = a mod b"
  by (simp add: js_rem_def signed_modulo_int_def sgn_if)

lemma repack_fields:
  assumes "fieldsInRange c"
  shows "mapEdge (repack w i c) = mapEdge c" "ramp (repack w i c) = ramp c"
    "water (repack w i c) = water c" "blight (repack w i c) = blight c"
    "boundary (repack w i c) = boundary c" "groundTexture (repack w i c) = groundTexture c"
    "groundVariation (repack w i c) = groundVariation c"
    "cliffVariation (repack w i c) = cliffVariation c"
    "cliffTexture (repack w i c) = cliffTexture c" "layerHeight (repack w i c) = layerHeight c"
  using assms unfolding fieldsInRange_def repack_def
  by (simp_all add: bitfield_take_bit bitfield_flag numeral_2_eq_2 numeral_3_eq_3)

lemma repack_heights:
  "groundHeight (repack w i c) =
     (of_int (take_bit 16 (heightRaw (groundHeight c))) - 8192) / 4"
  "waterHeight (repack w i c) =
     (of_int (take_bit 14 (heightRaw (waterHeight c))) - 8192) / 4"
  by (simp_all add: repack_def)

lemma repack_position:
  "index (repack w i c) = i" "rowid (repack w i c) = i div w" "colid (repack w i c) = js_rem i w"
  by (simp_all add: repack_def)

lemma repack_id:
  assumes "wf_corner c" "index c = i" "rowid c = i div w" "colid c = i mod w" "0 \<le> i" "0 < w"
  shows "repack w i c = c"
proof -
  have f: "fieldsInRange c" using assms(1) by (simp add: wf_corner_def)
  have q: "quarterMultiple (groundHeight c)" "heightInRange 16 (groundHeight c)"
    "quarterMultiple (waterHeight c)" "heightInRange 14 (waterHeight c)"
    using assms(1) by (simp_all add: wf_corner_def)
  have g: "groundHeight (repack w i c) = groundHeight c"
    unfolding repack_heights
    by (simp only: take_bit_heightRaw [OF q(2)] heightRaw_quarter(2) [OF q(1,2)] order_refl)
  have h: "waterHeight (repack w i c) = waterHeight c"
    unfolding repack_heights using take_bit_heightRaw [OF q(4)] heightRaw_quarter(2) [OF q(3,4)]
    by simp
  have p: "colid (repack w i c) = colid c"
    unfolding repack_position assms(4) using assms(5,6) by (rule js_rem_mod)
  show ?thesis
    by (rule Corner.equality)
       (simp_all add: repack_fields [OF f] g h p repack_position(1,2) assms(2,3))
qed

lemma repackAll_id:
  "list_all wf_corner cs \<Longrightarrow> positioned w i cs \<Longrightarrow> 0 \<le> i \<Longrightarrow> 0 < w \<Longrightarrow> repackAll w i cs = cs"
  by (induction cs arbitrary: i) (simp_all add: repack_id)

lemma framed_width_pos:
  assumes "framed w3e" "corners w3e \<noteq> []"
  shows "0 < width (header w3e)"
proof -
  have "0 < width (header w3e) * height (header w3e)"
    using assms by (cases "width (header w3e) * height (header w3e) \<le> 0") (simp_all add: framed_def)
  moreover have "0 \<le> width (header w3e)" "0 \<le> height (header w3e)"
    using assms(1) by (simp_all add: framed_def wf_header_def u32_def)
  ultimately show ?thesis by (simp add: zero_less_mult_iff)
qed

lemma roundTrip_wf: "wf_W3E w3e \<Longrightarrow> roundTrip w3e = Some (Inr w3e)"
proof -
  assume wf: "wf_W3E w3e"
  then have fr: "framed w3e" by (simp add: wf_W3E_def)
  have "repackAll (width (header w3e)) 0 (corners w3e) = corners w3e"
  proof (cases "corners w3e = []")
    case True
    then show ?thesis by simp
  next
    case False
    then have "0 < width (header w3e)" using fr by (rule framed_width_pos [rotated])
    then show ?thesis using wf by (simp add: wf_W3E_def repackAll_id)
  qed
  then show ?thesis using fr by (simp add: roundTrip_framed)
qed

subsection \<open>Sample documents\<close>

lemma wf_scenarioDoc: "wf_W3E scenarioDoc"
  by (simp add: wf_W3E_def framed_def wf_header_def u32_def scenarioDoc_def scenarioHeader_def
      scenarioCorner_def wf_corner_def quarterMultiple_def heightInRange_def fieldsInRange_def
      bitfield_def)

lemma bytes_scenarioDoc: "bytesW3E scenarioDoc = scenarioBytes"
  by (simp add: bytesW3E_def header_bytes_def scenarioDoc_def scenarioHeader_def
      scenarioCorner_def str32_bytes_def str8_bytes_def tags_bytes_def u32_bytes_def
      u16_bytes_def setFloat32_def corner_bytes_def charAtOrNul_def charCodeAt0_def
      waterWord_def flagsByte_def variationByte_def cliffByte_def
      js_or_def js_and_def js_shl_def toInt32_def scenarioBytes_def)

lemma wf_sampleDoc: "wf_W3E sampleDoc"
  by (simp add: wf_W3E_def framed_def wf_header_def u32_def sampleDoc_def
      wf_corner_def quarterMultiple_def heightInRange_def fieldsInRange_def bitfield_def)

lemma length_repackAll [simp]: "length (repackAll w j cs) = length cs"
  by (induction cs arbitrary: j) simp_all

lemma nth_repackAll:
  "i < length cs \<Longrightarrow> repackAll w j cs ! i = repack w (j + int i) (cs ! i)"
proof (induction cs arbitrary: i j)
  case Nil
  then show ?case by simp
next
  case (Cons c cs)
  show ?case
  proof (cases i)
    case 0
    then show ?thesis by simp
  next
    case (Suc k)
    then have "k < length cs" using Cons.prems by simp
    from Cons.IH [OF this, of "j + 1"] Suc show ?thesis by (simp add: add.assoc)
  qed
qed

lemma roundTrip_corner:
  assumes "framed d"
  shows "\<exists>buf d'. encodeW3e d = Some (Inr buf) \<and> decodeW3e buf = Inr d' \<and>
           header d' = header d \<and> length (corners d') = length (corners d) \<and>
           (\<forall>i < length (corners d).
              corners d' ! i = repack (width (header d)) (int i) (corners d ! i))"
proof -
  let ?d' = "\<lparr>header = header d, corners = repackAll (width (header d)) 0 (corners d)\<rparr>"
  have "roundTrip d = Some (Inr ?d')" using assms by (rule roundTrip_framed)
  then have "decodeW3e (bytesW3E d) = Inr ?d'"
    by (simp add: roundTrip_def encodeW3e_bytes)
  moreover have "\<forall>i < length (corners d).
      corners ?d' ! i = repack (width (header d)) (int i) (corners d ! i)"
    by (simp add: nth_repackAll)
  ultimately show ?thesis
    by (intro exI [of _ "bytesW3E d"] exI [of _ ?d']) (simp add: encodeW3e_bytes)
qed

lemma singleDoc_framed: "framed (singleDoc c)"
  by (simp add: framed_def singleDoc_def scenarioHeader_def wf_header_def u32_def)

lemma roundTrip_singleDoc:
  "roundTrip (singleDoc c) = Some (Inr (singleDoc (repack 1 0 c)))"
  by (simp add: roundTrip_framed [OF singleDoc_framed])
     (simp add: singleDoc_def scenarioHeader_def)

lemma onlyMax_wf: "onlyMax f c \<Longrightarrow> quarterMultiple (groundHeight c) \<and>
    heightInRange 16 (groundHeight c) \<and> quarterMultiple (waterHeight c) \<and>
    heightInRange 14 (waterHeight c) \<and> fieldsInRange c"
  by (cases f)
     (simp_all add: onlyMax_def allFields_def quarterMultiple_def heightInRange_def
       fieldsInRange_def bitfield_def)

lemma repack_fieldValue:
  assumes "quarterMultiple (groundHeight c)" "heightInRange 16 (groundHeight c)"
    "quarterMultiple (waterHeight c)" "heightInRange 14 (waterHeight c)" "fieldsInRange c"
  shows "fieldValue g (repack w i c) = fieldValue g c"
  using assms
  by (cases g)
     (simp_all add: repack_fields repack_heights take_bit_heightRaw heightRaw_quarter(2))

lemma allFields_complete: "g \<in> set allFields"
  by (cases g) (simp_all add: allFields_def)

subsection \<open>The structure of a decoded document\<close>

lemma le_int_nonneg: "0 \<le> le_int bs"
  by (induction bs) simp_all

lemma p_u32_nonneg: "0 \<le> fst (p_u32 bs)"
  by (simp add: p_u32_def le_int_nonneg)

lemma length_p_corners: "length (fst (p_corners n w j bs)) = n"
  by (induction n arbitrary: j bs) (simp_all add: case_prod_unfold)

lemma nth_p_corners:
  "i < n \<Longrightarrow> \<exists>g ww b4 b5 b6. fst (p_corners n w j bs) ! i = mkCorner w (j + int i) g ww b4 b5 b6"
proof (induction n arbitrary: i j bs)
  case 0
  then show ?case by simp
next
  case (Suc n)
  show ?case
  proof (cases i)
    case 0
    then show ?thesis by (simp add: case_prod_unfold p_corner_def) blast
  next
    case (Suc k)
    then have "k < n" using Suc.prems by simp
    from Suc.IH [OF this, of "j + 1" "snd (p_corner w j bs)"]
    show ?thesis using Suc by (simp add: case_prod_unfold add.assoc)
  qed
qed

lemma bitfield_take_bit_self: "bitfield n (take_bit n v)"
  by (simp add: bitfield_def)

lemma bitfield_of_bool: "bitfield 1 (of_bool b)"
  by (simp add: bitfield_def)

lemma mkCorner_inRange: "fieldsInRange (mkCorner w i g ww b4 b5 b6)"
  unfolding mkCorner_unpacked fieldsInRange_def
  by (simp only: Corner.simps bitfield_take_bit_self bitfield_of_bool simp_thms)

lemma mkCorner_position:
  "index (mkCorner w i g ww b4 b5 b6) = i" "rowid (mkCorner w i g ww b4 b5 b6) = i div w"
  "colid (mkCorner w i g ww b4 b5 b6) = js_rem i w"
  by (simp_all add: mkCorner_def)

lemma parseW3E_shape:
  "\<exists>bs. corners (parseW3E buf) =
          fst (p_corners (nat (width (header (parseW3E buf)) * height (header (parseW3E buf))))
                 (width (header (parseW3E buf))) 0 bs) \<and>
        0 \<le> width (header (parseW3E buf))"
  by (simp add: parseW3E_def case_prod_unfold p_u32_nonneg) blast


subsection \<open>Buffers that end early\<close>

lemma zext_refl: "zext bs bs"
  unfolding zext_def by (rule exI [of _ 0]) simp



















lemma decode_scenarioBytes: "decodeW3e scenarioBytes = Inr scenarioDoc"
proof -
  have "roundTrip scenarioDoc = Some (Inr scenarioDoc)"
    using wf_scenarioDoc by (rule roundTrip_wf)
  then show ?thesis
    by (simp add: roundTrip_def encodeW3e_bytes bytes_scenarioDoc)
qed







subsection \<open>Operations in the wrong mode\<close>

lemma read_in_write_mode:
  assumes "isWriting s"
  shows "readUBits s bits c = Inl (Error ''Cannot read in write mode.'')"
    "readUInt8 s c = Inl (Error ''Cannot read in write mode.'')"
    "readInt8 s c = Inl (Error ''Cannot read in write mode.'')"
    "readUInt16 s c = Inl (Error ''Cannot read in write mode.'')"
    "readInt16 s c = Inl (Error ''Cannot read in write mode.'')"
    "readUInt32 s c = Inl (Error ''Cannot read in write mode.'')"
    "readFloat32 s c = Inl (Error ''Cannot read in write mode.'')"
    "readString8 s c = Inl (Error ''Cannot read in write mode.'')"
    "readString32 s c = Inl (Error ''Cannot read in write mode.'')"
proof -
  show r: "readUBits s n b = Inl (Error ''Cannot read in write mode.'')" for n b
    using assms by (simp add: readUBits_def)
  show "readUInt8 s c = Inl (Error ''Cannot read in write mode.'')"
    "readInt8 s c = Inl (Error ''Cannot read in write mode.'')"
    "readUInt16 s c = Inl (Error ''Cannot read in write mode.'')"
    "readUInt32 s c = Inl (Error ''Cannot read in write mode.'')"
    by (simp_all add: readUInt8_def readInt8_def readUInt16_def readUInt32_def r)
  then show "readInt16 s c = Inl (Error ''Cannot read in write mode.'')"
    by (simp add: readInt16_def)
  show "readFloat32 s c = Inl (Error ''Cannot read in write mode.'')"
    by (simp add: readFloat32_def four r)
  show s8: "readString8 s b = Inl (Error ''Cannot read in write mode.'')" for b
    by (simp add: readString8_def r)
  show "readString32 s c = Inl (Error ''Cannot read in write mode.'')"
    by (simp add: readString32_def four s8)
qed

lemma readString32Array_in_write_mode:
  assumes "isWriting s" "0 < len"
  shows "readString32Array s len = Inl (Error ''Cannot read in write mode.'')"
proof -
  from assms(2) obtain k where "nat len = Suc k" by (cases "nat len") simp_all
  then show ?thesis
    by (simp add: readString32Array_def read_in_write_mode(9) [OF assms(1)])
qed

lemma write_in_read_mode:
  assumes "\<not> isWriting s"
  shows "ensureCapacity s bits = Some (Inl (Error ''Cannot write in read mode.''))"
    "writeUBits s v bits = Some (Inl (Error ''Cannot write in read mode.''))"
    "writeUInt8 s v = Some (Inl (Error ''Cannot write in read mode.''))"
    "writeInt8 s v = Some (Inl (Error ''Cannot write in read mode.''))"
    "writeUInt16 s v = Some (Inl (Error ''Cannot write in read mode.''))"
    "writeInt16 s v = Some (Inl (Error ''Cannot write in read mode.''))"
    "writeUInt32 s v = Some (Inl (Error ''Cannot write in read mode.''))"
    "writeFloat32 s w = Some (Inl (Error ''Cannot write in read mode.''))"
    "writeString8 s str = Some (Inl (Error ''Cannot write in read mode.''))"
    "writeString32 s str = Some (Inl (Error ''Cannot write in read mode.''))"
    "getBuffer s = Inl (Error ''Cannot get buffer in read mode.'')"
proof -
  show e: "ensureCapacity s n = Some (Inl (Error ''Cannot write in read mode.''))" for n
    using assms by (simp add: ensureCapacity_def)
  show w: "writeUBits s x n = Some (Inl (Error ''Cannot write in read mode.''))" for x n
    by (simp add: writeUBits_def e)
  show "writeUInt8 s v = Some (Inl (Error ''Cannot write in read mode.''))"
    "writeInt8 s v = Some (Inl (Error ''Cannot write in read mode.''))"
    "writeUInt16 s v = Some (Inl (Error ''Cannot write in read mode.''))"
    "writeUInt32 s v = Some (Inl (Error ''Cannot write in read mode.''))"
    by (simp_all add: writeUInt8_def writeInt8_def writeUInt16_def writeUInt32_def w)
  then show "writeInt16 s v = Some (Inl (Error ''Cannot write in read mode.''))"
    by (simp add: writeInt16_def)
  show "writeFloat32 s w = Some (Inl (Error ''Cannot write in read mode.''))"
    by (simp add: writeFloat32_def four w)
  show s8: "writeString8 s t = Some (Inl (Error ''Cannot write in read mode.''))" for t
    by (simp add: writeString8_def w)
  show "writeString32 s str = Some (Inl (Error ''Cannot write in read mode.''))"
    by (simp add: writeString32_def four s8)
  show "getBuffer s = Inl (Error ''Cannot get buffer in read mode.'')"
    using assms by (simp add: getBuffer_def)
qed

lemma writeString32Array_in_read_mode:
  assumes "\<not> isWriting s" "arr \<noteq> []"
  shows "writeString32Array s arr = Some (Inl (Error ''Cannot write in read mode.''))"
  using assms(2) by (cases arr) (simp_all add: write_in_read_mode(10) [OF assms(1)])

lemma readUBits_mode:
  "readUBits s bits c = Inr (v, s') \<Longrightarrow> isWriting s' = isWriting s"
  by (auto simp add: readUBits_def case_prod_unfold Let_def split: if_splits)

lemma ensureCapacity_mode:
  "ensureCapacity s bits = Some (Inr s') \<Longrightarrow> isWriting s' = isWriting s"
  by (auto simp add: ensureCapacity_def Let_def split: if_splits option.splits)

lemma writeUBits_mode:
  "writeUBits s v bits = Some (Inr s') \<Longrightarrow> isWriting s' = isWriting s"
  by (auto simp add: writeUBits_def bindW_def case_prod_unfold Let_def
      split: option.splits sum.splits dest: ensureCapacity_mode)


subsection \<open>The height that a corner is decoded with\<close>

lemma quarterMultiple_raw: "quarterMultiple ((of_int n - 8192) / 4)"
proof -
  have "(of_int n - 8192) / 4 * 4 = (of_int (n - 8192) :: rat)" by simp
  then show ?thesis unfolding quarterMultiple_def by (simp only: floor_of_int)
qed

lemma decoded_height:
  assumes "heightInRange bits h" "bits \<le> 16"
  shows "\<bar>(of_int (heightRaw h) - 8192) / 4 - h\<bar> \<le> 1 / 8 + 1 / 2 ^ 39"
    and "\<bar>(of_int (heightRaw h) - 8192) / 4 - h\<bar> \<le> \<bar>of_int m / 4 - h\<bar> + 1 / 2 ^ 38"
proof -
  have "(2 :: int) ^ bits \<le> 2 ^ 16" using assms(2) by (intro power_increasing) simp_all
  then have n: "(2 :: int) ^ bits - 1 \<le> 65535" by simp
  have r: "0 \<le> h * 4 + 8192" "h * 4 + 8192 \<le> of_int (2 ^ bits - 1)"
    using assms(1) by (simp_all add: heightInRange_def)
  have a: "(of_int (heightRaw h) - 8192) / 4 - h = (of_int (heightRaw h) - (h * 4 + 8192)) / 4"
    by (simp add: field_simps)
  have b: "of_int m / 4 - h = (of_int (m + 8192) - (h * 4 + 8192)) / 4"
    by (simp add: field_simps)
  have "\<bar>of_int (heightRaw h) - (h * 4 + 8192)\<bar> \<le> 1 / 2 + 1 / 2 ^ 37"
    using r n by (rule heightRaw_bounds(3))
  then have "\<bar>of_int (heightRaw h) - (h * 4 + 8192)\<bar> / 4 \<le> (1 / 2 + 1 / 2 ^ 37) / 4"
    by (rule divide_right_mono) simp
  then show "\<bar>(of_int (heightRaw h) - 8192) / 4 - h\<bar> \<le> 1 / 8 + 1 / 2 ^ 39"
    unfolding a by (simp add: abs_divide)
  have "\<bar>of_int (heightRaw h) - (h * 4 + 8192)\<bar>
      \<le> \<bar>of_int (m + 8192) - (h * 4 + 8192)\<bar> + 1 / 2 ^ 36"
    using r n by (rule heightRaw_bounds(4))
  then have "\<bar>of_int (heightRaw h) - (h * 4 + 8192)\<bar> / 4
      \<le> (\<bar>of_int (m + 8192) - (h * 4 + 8192)\<bar> + 1 / 2 ^ 36) / 4"
    by (rule divide_right_mono) simp
  then show "\<bar>(of_int (heightRaw h) - 8192) / 4 - h\<bar> \<le> \<bar>of_int m / 4 - h\<bar> + 1 / 2 ^ 38"
    unfolding a b by (simp add: abs_divide add_divide_distrib)
qed


section \<open>The claims\<close>

text \<open>
  C1 (round trip). For every terrain document whose header is well formed (4-character
  tags, a 1-character base tileset, 32-bit unsigned scalars, each palette count equal to
  the length of its palette), whose corner list has \<open>width * height\<close> entries carrying
  their own position in \<open>index\<close>, \<open>rowid\<close> and \<open>colid\<close>, and whose corner fields lie
  in their declared ranges (heights that are multiples of 0.25 inside the raw range,
  bitfields inside their widths), encoding succeeds and decoding the bytes gives back
  exactly that document, the two palette counts included.
\<close>

theorem C1_roundtrip:
  assumes "wf_W3E d"
  shows "\<exists>buf. encodeW3e d = Some (Inr buf) \<and> decodeW3e buf = Inr d"
proof -
  have "roundTrip d = Some (Inr d)" using assms by (rule roundTrip_wf)
  then have "decodeW3e (bytesW3E d) = Inr d"
    by (simp add: roundTrip_def encodeW3e_bytes)
  then show ?thesis by (simp add: encodeW3e_bytes)
qed

theorem C1_roundtrip_witness:
  "wf_W3E sampleDoc \<and>
   (\<exists>buf. encodeW3e sampleDoc = Some (Inr buf) \<and> decodeW3e buf = Inr sampleDoc)"
  using C1_roundtrip [of sampleDoc] wf_sampleDoc by simp




text \<open>
  C3 (out-of-range values are masked, neighbours untouched). The encoder masks
  \<open>groundTexture\<close>, \<open>groundVariation\<close>, \<open>cliffTexture\<close> and the raw water height, but
  shifts \<open>ramp\<close>, \<open>water\<close> and \<open>blight\<close> into byte 4 unmasked. For the 1\<times>1 document
  whose corner has \<open>ramp = 2\<close> and 0 elsewhere, the byte written is \<open>0x20\<close>: decoding
  gives \<open>ramp = 0\<close> and \<open>water = 1\<close>, so the out-of-range \<open>ramp\<close> has changed the
  stored bit of \<open>water\<close>.
\<close>

theorem C3_ramp_leaks_into_water:
  "roundTrip (singleDoc (zeroCorner\<lparr>ramp := 2\<rparr>)) =
     Some (Inr (singleDoc (zeroCorner\<lparr>water := 1\<rparr>)))"
  by (simp add: roundTrip_singleDoc)
     (simp add: zeroCorner_def repack_def js_rem_def)

text \<open>
  C4 (height precision), as the specification states it: a height that is not a
  multiple of 0.25 is reproduced rounded to the nearest multiple of 0.25. The encoder
  computes \<open>Math.round(h * 4 + 8192)\<close> in double precision, and the sum is rounded to a
  double before \<open>Math.round\<close> sees it. The height \<open>0.125 - 2\<^sup>-\<^sup>5\<^sup>6\<close> is a double inside
  the raw range; \<open>h * 4 + 8192\<close> lies below \<open>8192.5\<close> by less than half a unit in the
  last place and is rounded to \<open>8192.5\<close>, which \<open>Math.round\<close> takes to 8193: the
  1\<times>1 document with that ground height is decoded with the ground height 0.25,
  although 0 is nearer.
\<close>

theorem C4_double_rounding_counterexample:
  "dbl (1 / 8 - 1 / 2 ^ 56) = Some (1 / 8 - 1 / 2 ^ 56) \<and>
   heightInRange 16 (1 / 8 - 1 / 2 ^ 56) \<and>
   roundTrip (singleDoc (zeroCorner\<lparr>groundHeight := 1 / 8 - 1 / 2 ^ 56\<rparr>)) =
     Some (Inr (singleDoc (zeroCorner\<lparr>groundHeight := 1 / 4\<rparr>))) \<and>
   \<bar>0 - (1 / 8 - 1 / 2 ^ 56 :: rat)\<bar> < \<bar>1 / 4 - (1 / 8 - 1 / 2 ^ 56)\<bar>"
proof -
  have "repack 1 0 (zeroCorner\<lparr>groundHeight := 1 / 8 - 1 / 2 ^ 56\<rparr>) =
          zeroCorner\<lparr>groundHeight := 1 / 4\<rparr>"
    using heightRaw_example by (simp add: zeroCorner_def repack_def js_rem_def)
  then show ?thesis
    using dbl_example by (simp add: roundTrip_singleDoc heightInRange_def)
qed

text \<open>
  C4, amended: in every document with a well-formed header and \<open>width * height\<close>
  corners, a corner whose two heights lie in the representable range (raw 0..65535 for
  the ground, raw 0..16383 for the water) is decoded, after encoding, with each height
  \<open>h\<close> replaced by \<open>(Math.round(h * 4 + 8192) - 8192) / 4\<close>, the product and the sum
  being rounded to doubles. That value is a multiple of 0.25; it is \<open>h\<close> itself when
  \<open>h\<close> is a multiple of 0.25; in general it lies within \<open>1 / 8 + 2\<^sup>-\<^sup>3\<^sup>9\<close> of \<open>h\<close>, and
  no multiple of 0.25 is nearer to \<open>h\<close> by more than \<open>2\<^sup>-\<^sup>3\<^sup>8\<close>.
\<close>

theorem C4_height_precision:
  assumes "framed d" and "i < length (corners d)"
    and "heightInRange 16 (groundHeight (corners d ! i))"
    and "heightInRange 14 (waterHeight (corners d ! i))"
  shows "\<exists>buf d'. encodeW3e d = Some (Inr buf) \<and> decodeW3e buf = Inr d' \<and>
           groundHeight (corners d' ! i) =
             (of_int (heightRaw (groundHeight (corners d ! i))) - 8192) / 4 \<and>
           waterHeight (corners d' ! i) =
             (of_int (heightRaw (waterHeight (corners d ! i))) - 8192) / 4 \<and>
           quarterMultiple (groundHeight (corners d' ! i)) \<and>
           quarterMultiple (waterHeight (corners d' ! i)) \<and>
           (quarterMultiple (groundHeight (corners d ! i)) \<longrightarrow>
              groundHeight (corners d' ! i) = groundHeight (corners d ! i)) \<and>
           (quarterMultiple (waterHeight (corners d ! i)) \<longrightarrow>
              waterHeight (corners d' ! i) = waterHeight (corners d ! i)) \<and>
           \<bar>groundHeight (corners d' ! i) - groundHeight (corners d ! i)\<bar> \<le> 1 / 8 + 1 / 2 ^ 39 \<and>
           \<bar>waterHeight (corners d' ! i) - waterHeight (corners d ! i)\<bar> \<le> 1 / 8 + 1 / 2 ^ 39 \<and>
           (\<forall>m :: int. \<bar>groundHeight (corners d' ! i) - groundHeight (corners d ! i)\<bar>
                        \<le> \<bar>of_int m / 4 - groundHeight (corners d ! i)\<bar> + 1 / 2 ^ 38) \<and>
           (\<forall>m :: int. \<bar>waterHeight (corners d' ! i) - waterHeight (corners d ! i)\<bar>
                        \<le> \<bar>of_int m / 4 - waterHeight (corners d ! i)\<bar> + 1 / 2 ^ 38)"
proof -
  from roundTrip_corner [OF assms(1)] assms(2)
  obtain buf d' where r: "encodeW3e d = Some (Inr buf)" "decodeW3e buf = Inr d'"
    "corners d' ! i = repack (width (header d)) (int i) (corners d ! i)"
    by blast
  have g: "groundHeight (corners d' ! i) =
             (of_int (heightRaw (groundHeight (corners d ! i))) - 8192) / 4"
    using assms(3) by (simp add: r(3) repack_heights take_bit_heightRaw)
  have w: "waterHeight (corners d' ! i) =
             (of_int (heightRaw (waterHeight (corners d ! i))) - 8192) / 4"
    using assms(4) by (simp add: r(3) repack_heights take_bit_heightRaw)
  have q: "quarterMultiple (groundHeight (corners d' ! i))"
    "quarterMultiple (waterHeight (corners d' ! i))"
    unfolding g w by (rule quarterMultiple_raw)+
  have e: "quarterMultiple (groundHeight (corners d ! i)) \<longrightarrow>
             groundHeight (corners d' ! i) = groundHeight (corners d ! i)"
    "quarterMultiple (waterHeight (corners d ! i)) \<longrightarrow>
       waterHeight (corners d' ! i) = waterHeight (corners d ! i)"
    unfolding g w using assms(3,4) by (simp_all add: heightRaw_quarter(2))
  have b: "\<bar>groundHeight (corners d' ! i) - groundHeight (corners d ! i)\<bar> \<le> 1 / 8 + 1 / 2 ^ 39"
    "\<bar>waterHeight (corners d' ! i) - waterHeight (corners d ! i)\<bar> \<le> 1 / 8 + 1 / 2 ^ 39"
    unfolding g w using decoded_height(1) [OF assms(3)] decoded_height(1) [OF assms(4)]
    by simp_all
  have n: "\<bar>groundHeight (corners d' ! i) - groundHeight (corners d ! i)\<bar>
             \<le> \<bar>of_int m / 4 - groundHeight (corners d ! i)\<bar> + 1 / 2 ^ 38"
    "\<bar>waterHeight (corners d' ! i) - waterHeight (corners d ! i)\<bar>
       \<le> \<bar>of_int m / 4 - waterHeight (corners d ! i)\<bar> + 1 / 2 ^ 38" for m
    unfolding g w
    using decoded_height(2) [OF assms(3), of m] decoded_height(2) [OF assms(4), of m]
    by simp_all
  show ?thesis
    using r(1,2) q e b n g w by (intro exI [of _ buf] exI [of _ d'] conjI allI)
qed

theorem C4_height_precision_witness:
  "framed (singleDoc (zeroCorner\<lparr>groundHeight := 1 / 10, waterHeight := 1 / 8\<rparr>)) \<and>
   0 < length (corners (singleDoc (zeroCorner\<lparr>groundHeight := 1 / 10, waterHeight := 1 / 8\<rparr>))) \<and>
   heightInRange 16 (1 / 10) \<and> heightInRange 14 (1 / 8) \<and>
   (\<exists>buf d'. encodeW3e (singleDoc (zeroCorner\<lparr>groundHeight := 1 / 10, waterHeight := 1 / 8\<rparr>))
                = Some (Inr buf) \<and>
              decodeW3e buf = Inr d' \<and>
              groundHeight (corners d' ! 0) = 0 \<and> waterHeight (corners d' ! 0) = 1 / 4)"
proof -
  let ?d = "singleDoc (zeroCorner\<lparr>groundHeight := 1 / 10, waterHeight := 1 / 8\<rparr>)"
  have c: "corners ?d ! 0 = zeroCorner\<lparr>groundHeight := 1 / 10, waterHeight := 1 / 8\<rparr>"
    by (simp add: singleDoc_def)
  have h: "framed ?d" "0 < length (corners ?d)"
    "heightInRange 16 (groundHeight (corners ?d ! 0))"
    "heightInRange 14 (waterHeight (corners ?d ! 0))"
    by (simp_all add: singleDoc_framed c) (simp_all add: singleDoc_def heightInRange_def)
  have v: "groundHeight (corners ?d ! 0) = 1 / 10" "waterHeight (corners ?d ! 0) = 1 / 8"
    by (simp_all add: c)
  from C4_height_precision [OF h] obtain buf d' where e:
    "encodeW3e ?d = Some (Inr buf)" "decodeW3e buf = Inr d'"
    "groundHeight (corners d' ! 0) =
       (of_int (heightRaw (groundHeight (corners ?d ! 0))) - 8192) / 4"
    "waterHeight (corners d' ! 0) =
       (of_int (heightRaw (waterHeight (corners ?d ! 0))) - 8192) / 4"
    by blast
  have "groundHeight (corners d' ! 0) = 0" unfolding e(3) v heightRaw_tenth by simp
  moreover have "waterHeight (corners d' ! 0) = 1 / 4" unfolding e(4) v heightRaw_eighth by simp
  ultimately show ?thesis using h e(1,2) unfolding v by blast
qed

text \<open>
  C5 (bitfield isolation). In every document with a well-formed header and
  \<open>width * height\<close> corners, a corner in which one packed field holds its maximum
  (raw 65535 and raw 16383 for the two heights, all bits set for a bitfield) and every
  other packed field is 0 is decoded, after encoding, with that field still at its
  maximum and every other packed field still 0. The record is 7 bytes long.
\<close>

theorem C5_bitfield_isolation:
  assumes "framed d" and "i < length (corners d)" and "onlyMax f (corners d ! i)"
  shows "\<exists>buf d'. encodeW3e d = Some (Inr buf) \<and> decodeW3e buf = Inr d' \<and>
           fieldValue f (corners d' ! i) = fieldMax f \<and>
           (\<forall>g. g \<noteq> f \<longrightarrow> fieldValue g (corners d' ! i) = 0)"
proof -
  from roundTrip_corner [OF assms(1)] assms(2)
  obtain buf d' where r: "encodeW3e d = Some (Inr buf)" "decodeW3e buf = Inr d'"
    "corners d' ! i = repack (width (header d)) (int i) (corners d ! i)"
    by blast
  have same: "fieldValue g (corners d' ! i) = fieldValue g (corners d ! i)" for g
    using onlyMax_wf [OF assms(3)] by (simp add: r(3) repack_fieldValue)
  have "fieldValue g (corners d ! i) = (if g = f then fieldMax f else 0)" for g
    using assms(3) allFields_complete [of g] by (simp add: onlyMax_def list_all_iff)
  then show ?thesis using r(1,2) by (simp add: same)
qed

theorem C5_bitfield_isolation_witness:
  "framed (singleDoc (zeroCorner\<lparr>layerHeight := 15\<rparr>)) \<and>
   0 < length (corners (singleDoc (zeroCorner\<lparr>layerHeight := 15\<rparr>))) \<and>
   onlyMax LayerHeight (corners (singleDoc (zeroCorner\<lparr>layerHeight := 15\<rparr>)) ! 0) \<and>
   (\<exists>buf d'. encodeW3e (singleDoc (zeroCorner\<lparr>layerHeight := 15\<rparr>)) = Some (Inr buf) \<and>
      decodeW3e buf = Inr d' \<and>
      fieldValue LayerHeight (corners d' ! 0) = fieldMax LayerHeight \<and>
      (\<forall>g. g \<noteq> LayerHeight \<longrightarrow> fieldValue g (corners d' ! 0) = 0))"
proof -
  let ?d = "singleDoc (zeroCorner\<lparr>layerHeight := 15\<rparr>)"
  have h: "framed ?d" "0 < length (corners ?d)" "onlyMax LayerHeight (corners ?d ! 0)"
    by (simp_all add: singleDoc_framed)
       (simp_all add: singleDoc_def zeroCorner_def onlyMax_def allFields_def)
  from C5_bitfield_isolation [OF h] h show ?thesis by blast
qed

text \<open>
  C6 (\<open>mapEdge\<close> beside a full-range water height). In every document with a
  well-formed header and \<open>width * height\<close> corners, a corner with \<open>mapEdge\<close> in
  0..3 and a water height \<open>(raw - 8192) / 4\<close> for a raw value in 0..16383 is decoded,
  after encoding, with the same \<open>mapEdge\<close> and the same water height, whatever its
  other fields hold.
\<close>

theorem C6_mapEdge_water:
  assumes "framed d" and "i < length (corners d)"
    and "0 \<le> mapEdge (corners d ! i)" and "mapEdge (corners d ! i) \<le> 3"
    and "0 \<le> raw" and "raw \<le> 16383"
    and "waterHeight (corners d ! i) = (of_int raw - 8192) / 4"
  shows "\<exists>buf d'. encodeW3e d = Some (Inr buf) \<and> decodeW3e buf = Inr d' \<and>
           mapEdge (corners d' ! i) = mapEdge (corners d ! i) \<and>
           waterHeight (corners d' ! i) = waterHeight (corners d ! i)"
proof -
  from roundTrip_corner [OF assms(1)] assms(2)
  obtain buf d' where r: "encodeW3e d = Some (Inr buf)" "decodeW3e buf = Inr d'"
    "corners d' ! i = repack (width (header d)) (int i) (corners d ! i)"
    by blast
  have m: "mapEdge (corners d' ! i) = mapEdge (corners d ! i)"
    using assms(3,4) by (simp add: r(3) repack_def take_bit_int_eq_self)
  have "waterHeight (corners d ! i) * 4 = of_int (raw - 8192)"
    unfolding assms(7) by simp
  then have "heightRaw (waterHeight (corners d ! i)) = raw - 8192 + 8192"
    using assms(5,6) by (intro heightRaw_int) simp_all
  then have h: "heightRaw (waterHeight (corners d ! i)) = raw" by simp
  have w: "waterHeight (corners d' ! i) = waterHeight (corners d ! i)"
    unfolding r(3) repack_heights h using assms(5,6)
    by (simp add: take_bit_int_eq_self assms(7))
  show ?thesis using r(1,2) m w by blast
qed

theorem C6_mapEdge_water_witness:
  "framed (singleDoc (zeroCorner\<lparr>waterHeight := 8191 / 4, mapEdge := 3\<rparr>)) \<and>
   0 < length (corners (singleDoc (zeroCorner\<lparr>waterHeight := 8191 / 4, mapEdge := 3\<rparr>))) \<and>
   (0 :: int) \<le> 3 \<and> (3 :: int) \<le> 3 \<and> (0 :: int) \<le> 16383 \<and> (16383 :: int) \<le> 16383 \<and>
   (8191 / 4 :: rat) = (of_int 16383 - 8192) / 4 \<and>
   (\<exists>buf d'. encodeW3e (singleDoc (zeroCorner\<lparr>waterHeight := 8191 / 4, mapEdge := 3\<rparr>))
                = Some (Inr buf) \<and>
      decodeW3e buf = Inr d' \<and> mapEdge (corners d' ! 0) = 3 \<and>
      waterHeight (corners d' ! 0) = 8191 / 4)"
proof -
  let ?d = "singleDoc (zeroCorner\<lparr>waterHeight := 8191 / 4, mapEdge := 3\<rparr>)"
  have c: "corners ?d ! 0 = zeroCorner\<lparr>waterHeight := 8191 / 4, mapEdge := 3\<rparr>"
    by (simp add: singleDoc_def)
  have h: "framed ?d" "0 < length (corners ?d)"
    "0 \<le> mapEdge (corners ?d ! 0)" "mapEdge (corners ?d ! 0) \<le> 3"
    "(0 :: int) \<le> 16383" "(16383 :: int) \<le> 16383"
    "waterHeight (corners ?d ! 0) = (of_int 16383 - 8192) / 4"
    by (simp_all add: singleDoc_framed c) (simp_all add: singleDoc_def)
  from C6_mapEdge_water [OF h] show ?thesis using h(1,2) by (simp add: c)
qed

text \<open>
  C7 (the 2\<times>1 scenario), as the specification states it: the encoded buffer has exactly
  45 bytes. It has not: the header alone takes 45 bytes and each corner is written as
  two 16-bit words and three bytes, 7 bytes, so the buffer has 59 bytes.
\<close>

theorem C7_length_counterexample:
  "map_option (map_sum id length) (encodeW3e scenarioDoc) \<noteq> Some (Inr 45)"
  by (simp add: encodeW3e_bytes bytes_scenarioDoc scenarioBytes_def)

text \<open>
  C7, amended: for the 2\<times>1 scenario document \<open>encodeW3e\<close> returns the 59 bytes
  \<open>scenarioBytes\<close> (45 of header and 2 \<times> 7 of corners), and \<open>decodeW3e\<close> of these
  bytes is the scenario document again, with \<open>groundTexture = 3\<close> at both corners.
\<close>

theorem C7_scenario:
  "encodeW3e scenarioDoc = Some (Inr scenarioBytes) \<and> length scenarioBytes = 59 \<and>
   decodeW3e scenarioBytes = Inr scenarioDoc \<and>
   groundTexture (corners scenarioDoc ! 0) = 3 \<and> groundTexture (corners scenarioDoc ! 1) = 3"
proof -
  have "roundTrip scenarioDoc = Some (Inr scenarioDoc)"
    using wf_scenarioDoc by (rule roundTrip_wf)
  then have "decodeW3e scenarioBytes = Inr scenarioDoc"
    by (simp add: roundTrip_def encodeW3e_bytes bytes_scenarioDoc)
  then show ?thesis
    by (simp add: encodeW3e_bytes bytes_scenarioDoc)
       (simp add: scenarioBytes_def scenarioDoc_def scenarioCorner_def)
qed

text \<open>
  C8 (mode enforcement), as the specification states it: every read operation fails on
  a write-bound stream and every write operation on a read-bound one. The mode is
  checked where bits are touched, in \<open>readUBits\<close> and \<open>_ensureCapacity\<close>, so the two
  array operations succeed in the wrong mode when they have nothing to do: reading 0
  tags from a write-bound stream returns the empty array, and writing the empty array
  to a read-bound stream returns normally.
\<close>

theorem C8_empty_array_counterexample:
  "readString32Array (newBitStream None) 0 = Inr ([], newBitStream None) \<and>
   writeString32Array (newBitStream (Some [])) [] = Some (Inr (newBitStream (Some [])))"
  by (simp add: readString32Array_def)

text \<open>
  C8, amended: the mode of a stream is kept by \<open>readUBits\<close>, \<open>_ensureCapacity\<close>
  and \<open>writeUBits\<close>, on which every other operation is built. On a write-bound stream
  \<open>readUBits\<close> and every fixed-width read built on it fail with the error
  \<open>Cannot read in write mode.\<close>, as does \<open>readString32Array\<close> for a positive length.
  On a read-bound stream \<open>_ensureCapacity\<close>, \<open>writeUBits\<close> and every fixed-width
  write fail with \<open>Cannot write in read mode.\<close>, as does \<open>writeString32Array\<close> for a
  non-empty array, and \<open>getBuffer\<close> fails with \<open>Cannot get buffer in read mode.\<close>
\<close>

theorem C8_mode_enforced:
  "(isWriting s \<longrightarrow>
      readUBits s bits c = Inl (Error ''Cannot read in write mode.'') \<and>
      readUInt8 s c = Inl (Error ''Cannot read in write mode.'') \<and>
      readInt8 s c = Inl (Error ''Cannot read in write mode.'') \<and>
      readUInt16 s c = Inl (Error ''Cannot read in write mode.'') \<and>
      readInt16 s c = Inl (Error ''Cannot read in write mode.'') \<and>
      readUInt32 s c = Inl (Error ''Cannot read in write mode.'') \<and>
      readFloat32 s c = Inl (Error ''Cannot read in write mode.'') \<and>
      readString8 s c = Inl (Error ''Cannot read in write mode.'') \<and>
      readString32 s c = Inl (Error ''Cannot read in write mode.'') \<and>
      (0 < len \<longrightarrow> readString32Array s len = Inl (Error ''Cannot read in write mode.''))) \<and>
   (\<not> isWriting s \<longrightarrow>
      ensureCapacity s bits = Some (Inl (Error ''Cannot write in read mode.'')) \<and>
      writeUBits s v bits = Some (Inl (Error ''Cannot write in read mode.'')) \<and>
      writeUInt8 s v = Some (Inl (Error ''Cannot write in read mode.'')) \<and>
      writeInt8 s v = Some (Inl (Error ''Cannot write in read mode.'')) \<and>
      writeUInt16 s v = Some (Inl (Error ''Cannot write in read mode.'')) \<and>
      writeInt16 s v = Some (Inl (Error ''Cannot write in read mode.'')) \<and>
      writeUInt32 s v = Some (Inl (Error ''Cannot write in read mode.'')) \<and>
      writeFloat32 s w = Some (Inl (Error ''Cannot write in read mode.'')) \<and>
      writeString8 s str = Some (Inl (Error ''Cannot write in read mode.'')) \<and>
      writeString32 s str = Some (Inl (Error ''Cannot write in read mode.'')) \<and>
      (arr \<noteq> [] \<longrightarrow>
         writeString32Array s arr = Some (Inl (Error ''Cannot write in read mode.''))) \<and>
      getBuffer s = Inl (Error ''Cannot get buffer in read mode.'')) \<and>
   (\<forall>r s'. readUBits s bits c = Inr (r, s') \<longrightarrow> isWriting s' = isWriting s) \<and>
   (\<forall>s'. ensureCapacity s bits = Some (Inr s') \<longrightarrow> isWriting s' = isWriting s) \<and>
   (\<forall>s'. writeUBits s v bits = Some (Inr s') \<longrightarrow> isWriting s' = isWriting s)"
proof (intro conjI impI allI)
  fix r s'
  assume "readUBits s bits c = Inr (r, s')"
  then show "isWriting s' = isWriting s" by (rule readUBits_mode)
next
  fix s'
  assume "ensureCapacity s bits = Some (Inr s')"
  then show "isWriting s' = isWriting s" by (rule ensureCapacity_mode)
next
  fix s'
  assume "writeUBits s v bits = Some (Inr s')"
  then show "isWriting s' = isWriting s" by (rule writeUBits_mode)
qed (simp_all add: read_in_write_mode write_in_read_mode readString32Array_in_write_mode
       writeString32Array_in_read_mode)

theorem C8_mode_enforced_witness:
  "isWriting (newBitStream None) \<and>
   readUInt32 (newBitStream None) True = Inl (Error ''Cannot read in write mode.'') \<and>
   readString32Array (newBitStream None) 1 = Inl (Error ''Cannot read in write mode.'') \<and>
   \<not> isWriting (newBitStream (Some [1, 2])) \<and>
   writeUInt32 (newBitStream (Some [1, 2])) 7 = Some (Inl (Error ''Cannot write in read mode.'')) \<and>
   writeString32Array (newBitStream (Some [1, 2])) [''Oaby''] =
     Some (Inl (Error ''Cannot write in read mode.'')) \<and>
   getBuffer (newBitStream (Some [1, 2])) = Inl (Error ''Cannot get buffer in read mode.'')"
proof -
  have w: "isWriting (newBitStream None)" and r: "\<not> isWriting (newBitStream (Some [1, 2]))"
    by (simp_all add: newBitStream_def)
  from C8_mode_enforced [of "newBitStream None" 8 True 1 0 0 "''''" "[]"] w
  have "readUInt32 (newBitStream None) True = Inl (Error ''Cannot read in write mode.'')"
    "readString32Array (newBitStream None) 1 = Inl (Error ''Cannot read in write mode.'')"
    by simp_all
  moreover from C8_mode_enforced [of "newBitStream (Some [1, 2])" 8 True 1 7 0 "''''" "[''Oaby'']"] r
  have "writeUInt32 (newBitStream (Some [1, 2])) 7 = Some (Inl (Error ''Cannot write in read mode.''))"
    "writeString32Array (newBitStream (Some [1, 2])) [''Oaby''] =
       Some (Inl (Error ''Cannot write in read mode.''))"
    "getBuffer (newBitStream (Some [1, 2])) = Inl (Error ''Cannot get buffer in read mode.'')"
    by simp_all
  ultimately show ?thesis using w r by simp
qed



text \<open>
  C10 (structure of a decoded document). Every document that \<open>decodeW3e\<close> returns,
  whatever the buffer holds, has exactly \<open>width * height\<close> corners; the corner at
  position \<open>i\<close> has \<open>index = i\<close>, \<open>rowid = i div width\<close>, \<open>colid = i mod width\<close>, and
  each of its bitfields lies within its width: \<open>mapEdge\<close> in 0..3, the four flags in
  0..1, \<open>groundTexture\<close>, \<open>cliffTexture\<close> and \<open>layerHeight\<close> in 0..15,
  \<open>groundVariation\<close> in 0..31 and \<open>cliffVariation\<close> in 0..7.
\<close>

theorem C10_structural_invariant:
  assumes "decodeW3e buf = Inr d"
  shows "length (corners d) = nat (width (header d) * height (header d)) \<and>
         (\<forall>i < length (corners d).
            index (corners d ! i) = int i \<and>
            rowid (corners d ! i) = int i div width (header d) \<and>
            colid (corners d ! i) = int i mod width (header d) \<and>
            fieldsInRange (corners d ! i))"
proof -
  from assms have d: "d = parseW3E buf" by (simp add: decodeW3e_parse)
  let ?w = "width (header d)"
  let ?n = "nat (?w * height (header d))"
  from parseW3E_shape [of buf] obtain bs where
    cs: "corners d = fst (p_corners ?n ?w 0 bs)" and w: "0 \<le> ?w"
    unfolding d by blast
  have len: "length (corners d) = ?n"
    unfolding cs by (rule length_p_corners)
  have "index (corners d ! i) = int i \<and> rowid (corners d ! i) = int i div ?w \<and>
        colid (corners d ! i) = int i mod ?w \<and> fieldsInRange (corners d ! i)"
    if i: "i < length (corners d)" for i
  proof -
    from i len have "i < ?n" by simp
    from nth_p_corners [OF this, of ?w 0 bs]
    obtain g ww b4 b5 b6 where c: "corners d ! i = mkCorner ?w (int i) g ww b4 b5 b6"
      unfolding cs [symmetric] by auto
    have "0 < ?w * height (header d)" using i len by simp
    then have "0 < ?w" using w by (simp add: zero_less_mult_iff)
    then have "js_rem (int i) ?w = int i mod ?w" by (simp add: js_rem_mod)
    then show ?thesis
      by (simp only: c mkCorner_position mkCorner_inRange simp_thms)
  qed
  then show ?thesis using len by blast
qed

theorem C10_structural_invariant_witness:
  "decodeW3e scenarioBytes = Inr scenarioDoc \<and> length (corners scenarioDoc) = 2 \<and>
   width (header scenarioDoc) * height (header scenarioDoc) = 2 \<and>
   index (corners scenarioDoc ! 1) = 1 \<and> rowid (corners scenarioDoc ! 1) = 0 \<and>
   colid (corners scenarioDoc ! 1) = 1 \<and>
   fieldsInRange (corners scenarioDoc ! 0) \<and> fieldsInRange (corners scenarioDoc ! 1)"
proof -
  have l: "length (corners scenarioDoc) = 2" "width (header scenarioDoc) = 2"
    "height (header scenarioDoc) = 1"
    by (simp_all add: scenarioDoc_def scenarioHeader_def)
  from C10_structural_invariant [OF decode_scenarioBytes]
  have a: "\<forall>i < length (corners scenarioDoc).
      index (corners scenarioDoc ! i) = int i \<and>
      rowid (corners scenarioDoc ! i) = int i div width (header scenarioDoc) \<and>
      colid (corners scenarioDoc ! i) = int i mod width (header scenarioDoc) \<and>
      fieldsInRange (corners scenarioDoc ! i)"
    by simp
  from a [rule_format, of 0] a [rule_format, of 1] show ?thesis
    by (simp add: l decode_scenarioBytes)
qed

end
